theory Spec2Isabelle
  imports Main
begin

section \<open>The document tree of the markup library\<close>

text \<open>
  \<^verbatim>\<open>rewrite_permalinks.py\<close> edits a tree built by BeautifulSoup. A tag has a
  name, an ordered attribute dictionary and a list of children; every other node is a
  string (text, comment, doctype, ...). An attribute value is a string, or a list of
  tokens for the multi-valued attribute \<open>class\<close> as the parser stores it.
  A Python \<open>str\<close> is represented by its UTF-8 bytes.
\<close>

datatype error = AttributeError | TypeError | ValueError | FileNotFoundError | UnicodeDecodeError

datatype aval = Str string | Toks "string list"

datatype strkind = PlainText | Comment | CData | ProcessingInstruction | Declaration | Doctype

datatype node = NavStr strkind string | Tag string "(string \<times> aval) list" "node list"

fun attrs_of :: "node \<Rightarrow> (string \<times> aval) list" where
  "attrs_of (Tag nm as cs) = as"
| "attrs_of (NavStr k s) = []"

fun contents :: "node \<Rightarrow> node list" where
  "contents (Tag nm as cs) = cs"
| "contents (NavStr k s) = []"

text \<open>\<^verbatim>\<open>tag.get(key)\<close> and \<^verbatim>\<open>tag.has_attr(key)\<close>.\<close>

definition get_attr :: "string \<Rightarrow> node \<Rightarrow> aval option" where
  "get_attr k n = map_of (attrs_of n) k"

definition has_attr :: "string \<Rightarrow> node \<Rightarrow> bool" where
  "has_attr k n = (k \<in> fst ` set (attrs_of n))"

text \<open>\<^verbatim>\<open>tag[key] = value\<close>: a Python dict keeps the position of a key it already
  holds and appends a new one.\<close>

fun set_item :: "string \<Rightarrow> aval \<Rightarrow> (string \<times> aval) list \<Rightarrow> (string \<times> aval) list" where
  "set_item k v [] = [(k, v)]"
| "set_item k v (p # ps) = (if fst p = k then (k, v) # ps else p # set_item k v ps)"

text \<open>Python truthiness of an attribute value and of a node (\<^verbatim>\<open>Tag.__bool__\<close> is
  always true, a string node is true when it is not empty).\<close>

fun truthy_val :: "aval \<Rightarrow> bool" where
  "truthy_val (Str s) = (s \<noteq> [])"
| "truthy_val (Toks ts) = (ts \<noteq> [])"

fun truthy_node :: "node \<Rightarrow> bool" where
  "truthy_node (Tag nm as cs) = True"
| "truthy_node (NavStr k s) = (s \<noteq> [])"

text \<open>\<^verbatim>\<open>' '.join(tokens)\<close>.\<close>

fun join_sp :: "string list \<Rightarrow> string" where
  "join_sp [] = []"
| "join_sp [t] = t"
| "join_sp (t # u # ts) = t @ '' '' @ join_sp (u # ts)"

text \<open>The \<^verbatim>\<open>class_=\<close> filter of \<^verbatim>\<open>find\<close>/\<^verbatim>\<open>find_all\<close>: a token list
  matches when one token equals the wanted string or the tokens joined by single spaces
  do; a string value matches when it is equal; a missing attribute never matches.\<close>

fun matches_class :: "string \<Rightarrow> aval option \<Rightarrow> bool" where
  "matches_class c None = False"
| "matches_class c (Some (Str s)) = (s = c)"
| "matches_class c (Some (Toks ts)) = (c \<in> set ts \<or> join_sp ts = c)"

fun named :: "string \<Rightarrow> node \<Rightarrow> bool" where
  "named nm (Tag nm' as cs) = (nm' = nm)"
| "named nm (NavStr k s) = False"

definition named_class :: "string \<Rightarrow> string \<Rightarrow> node \<Rightarrow> bool" where
  "named_class nm c n = (named nm n \<and> matches_class c (get_attr ''class'' n))"

text \<open>Searches return references. A reference into a tree is the path of child
  indices from its root. \<open>paths_from p k cs\<close> lists, in document order, the paths of
  the nodes satisfying \<open>p\<close> among the trees \<open>cs\<close> and their descendants, the
  first tree of \<open>cs\<close> having index \<open>k\<close>.\<close>

fun paths_from :: "(node \<Rightarrow> bool) \<Rightarrow> nat \<Rightarrow> node list \<Rightarrow> nat list list" where
  "paths_from p k [] = []"
| "paths_from p k (NavStr kd s # cs) =
     (if p (NavStr kd s) then [[k]] else []) @ paths_from p (Suc k) cs"
| "paths_from p k (Tag nm as ds # cs) =
     (if p (Tag nm as ds) then [[k]] else []) @ map ((#) k) (paths_from p 0 ds)
       @ paths_from p (Suc k) cs"

text \<open>\<^verbatim>\<open>tag.find_all(...)\<close> searches the descendants of \<open>tag\<close>, not \<open>tag\<close>
  itself; \<^verbatim>\<open>tag.find(...)\<close> is its first result or \<open>None\<close>.\<close>

definition find_all :: "(node \<Rightarrow> bool) \<Rightarrow> node \<Rightarrow> nat list list" where
  "find_all p t = paths_from p 0 (contents t)"

definition find_first :: "(node \<Rightarrow> bool) \<Rightarrow> node \<Rightarrow> nat list option" where
  "find_first p t = (case find_all p t of [] \<Rightarrow> None | r # rs \<Rightarrow> Some r)"

primrec subtree :: "nat list \<Rightarrow> node \<Rightarrow> node option" where
  "subtree [] t = Some t"
| "subtree (i # r) t =
     (if i < length (contents t) then subtree r (contents t ! i) else None)"

primrec modify :: "nat list \<Rightarrow> (node \<Rightarrow> node) \<Rightarrow> node \<Rightarrow> node" where
  "modify [] g t = g t"
| "modify (i # r) g t =
     (case t of Tag nm as cs \<Rightarrow> Tag nm as (cs[i := modify r g (cs ! i)]) | NavStr k s \<Rightarrow> t)"

text \<open>The three edits of the library that the script uses:
  \<^verbatim>\<open>tag.insert(i, new)\<close> (and \<^verbatim>\<open>append\<close>, \<^verbatim>\<open>insert_after\<close>, which are
  insertions at an index of the parent), removal of a child, and replacing a tag's
  attributes and children.\<close>

fun insert_kid :: "nat \<Rightarrow> node \<Rightarrow> node \<Rightarrow> node" where
  "insert_kid i new (Tag nm as cs) = Tag nm as (take i cs @ new # drop i cs)"
| "insert_kid i new (NavStr k s) = NavStr k s"

fun remove_kid :: "nat \<Rightarrow> node \<Rightarrow> node" where
  "remove_kid i (Tag nm as cs) = Tag nm as (take i cs @ drop (Suc i) cs)"
| "remove_kid i (NavStr k s) = NavStr k s"

section \<open>The identifier pattern\<close>

text \<open>\<^verbatim>\<open>re.match(r'dfn-panel-for-(?:dfn-)?(.+)', pid)\<close> anchors at the start only;
  \<open>.\<close> matches every character but a newline, and \<open>(.+)\<close> is greedy, so the group
  is the rest of the first line. The optional \<open>dfn-\<close> is taken when a character
  other than a newline follows it, and given back otherwise.\<close>

definition starts_with :: "string \<Rightarrow> string \<Rightarrow> bool" where
  "starts_with pre s = (take (length pre) s = pre)"

definition first_line :: "string \<Rightarrow> string" where
  "first_line s = takeWhile (\<lambda>c. c \<noteq> CHR 0x0A) s"

definition match_panel_id :: "string \<Rightarrow> string option" where
  "match_panel_id pid =
     (if \<not> starts_with ''dfn-panel-for-'' pid then None
      else let rest = drop 14 pid in
        if starts_with ''dfn-'' rest \<and> first_line (drop 4 rest) \<noteq> []
        then Some (first_line (drop 4 rest))
        else if first_line rest \<noteq> [] then Some (first_line rest) else None)"

text \<open>\<^verbatim>\<open>'dfn-' + dfn_suffix if not dfn_suffix.startswith('dfn-') else dfn_suffix\<close>\<close>

definition dfn_id_of :: "string \<Rightarrow> string" where
  "dfn_id_of suffix = (if \<not> starts_with ''dfn-'' suffix then ''dfn-'' @ suffix else suffix)"

text \<open>\<^verbatim>\<open>pid = panel.get('id') or ''\<close>, then the match, which raises
  \<open>TypeError\<close> when it is handed a list.\<close>

definition panel_suffix :: "node \<Rightarrow> error + string option" where
  "panel_suffix panel =
     (case get_attr ''id'' panel of
        None \<Rightarrow> Inr (match_panel_id [])
      | Some (Str s) \<Rightarrow> Inr (match_panel_id s)
      | Some (Toks ts) \<Rightarrow> if ts = [] then Inr (match_panel_id []) else Inl TypeError)"

section \<open>Rewriting one panel\<close>

text \<open>The searches of the loop body:
  \<^verbatim>\<open>find('a', class_='self-link')\<close>, \<^verbatim>\<open>panel.div\<close> (the first \<open>div\<close>
  below the panel), \<^verbatim>\<open>find('span', class_='marker dfn-exported')\<close>.\<close>

definition is_self_link :: "node \<Rightarrow> bool" where
  "is_self_link = named_class ''a'' ''self-link''"

definition is_div :: "node \<Rightarrow> bool" where
  "is_div = named ''div''"

definition is_marker :: "node \<Rightarrow> bool" where
  "is_marker = named_class ''span'' ''marker dfn-exported''"

text \<open>\<^verbatim>\<open>soup.new_tag('a', **{'class': 'self-link'})\<close>: the constructor splits the
  value of \<open>class\<close> into tokens. The marker receives its class by item assignment,
  which stores the string as it is.\<close>

definition new_anchor :: node where
  "new_anchor = Tag ''a'' [(''class'', Toks [''self-link''])] []"

definition new_marker :: node where
  "new_marker =
     Tag ''span''
       [(''class'', Str ''marker dfn-exported''),
        (''title'', Str ''Definition can be referenced by other specifications'')]
       [NavStr PlainText ''exported'']"

text \<open>Lines 56 to 58: \<^verbatim>\<open>a['href']\<close>, \<^verbatim>\<open>a.string\<close> (which empties the tag and
  appends one text node) and \<^verbatim>\<open>a['aria-label']\<close>.\<close>

fun set_permalink :: "string \<Rightarrow> node \<Rightarrow> node" where
  "set_permalink dfn_id (Tag nm as cs) =
     Tag nm
       (set_item ''aria-label''
          (Str (''Permalink for definition: '' @ dfn_id @ ''. Activate to close this dialog.''))
          (set_item ''href'' (Str (''#'' @ dfn_id)) as))
       [NavStr PlainText ''Permalink'']"
| "set_permalink dfn_id (NavStr k s) = NavStr k s"

text \<open>\<^verbatim>\<open>'export' in (dfn_tag.get('class') or []) or dfn_tag.has_attr('data-export')\<close>:
  membership in a token list, the substring test on a string.\<close>

fun contains_str :: "string \<Rightarrow> string \<Rightarrow> bool" where
  "contains_str w [] = (w = [])"
| "contains_str w (c # cs) = (starts_with w (c # cs) \<or> contains_str w cs)"

fun export_in :: "aval option \<Rightarrow> bool" where
  "export_in None = False"
| "export_in (Some (Toks ts)) = (''export'' \<in> set ts)"
| "export_in (Some (Str s)) = (s \<noteq> [] \<and> contains_str ''export'' s)"

definition is_exported :: "node \<Rightarrow> bool" where
  "is_exported d = (export_in (get_attr ''class'' d) \<or> has_attr ''data-export'' d)"

text \<open>A tag held by the index may have been destroyed by an earlier
  \<^verbatim>\<open>decompose()\<close>; reading an attribute of such a tag raises. The looked-up tag is
  \<open>None\<close> (no entry), \<open>Some None\<close> (an entry whose tag was destroyed) or the tag.\<close>

fun export_status :: "node option option \<Rightarrow> error + bool" where
  "export_status None = Inr False"
| "export_status (Some None) = Inl AttributeError"
| "export_status (Some (Some d)) = Inr (is_exported d)"

text \<open>References that other variables of the script hold into the panel move with the
  edits: a path below the panel stays (\<open>Here\<close>, possibly shifted), leaves the
  document with the old children of the anchor (\<open>Away j r\<close>: path \<open>r\<close> in the
  \<open>j\<close>-th of them), or is destroyed with the marker (\<open>Lost\<close>).\<close>

datatype lref = Here "nat list" | Away nat "nat list" | Lost

definition below :: "nat list \<Rightarrow> nat list \<Rightarrow> bool" where
  "below q r = (length q < length r \<and> take (length q) r = q)"

definition after_insert :: "nat list \<Rightarrow> nat \<Rightarrow> nat list \<Rightarrow> nat list" where
  "after_insert q k r =
     (if below q r \<and> k \<le> r ! length q
      then q @ Suc (r ! length q) # drop (Suc (length q)) r else r)"

definition after_clear :: "nat list \<Rightarrow> nat list \<Rightarrow> lref" where
  "after_clear a r =
     (if below a r then Away (r ! length a) (drop (Suc (length a)) r) else Here r)"

definition after_remove :: "nat list \<Rightarrow> nat \<Rightarrow> nat list \<Rightarrow> lref" where
  "after_remove q k r =
     (if below q r then
        (if r ! length q = k then Lost
         else if k < r ! length q then Here (q @ (r ! length q - 1) # drop (Suc (length q)) r)
         else Here r)
      else Here r)"

text \<open>Lines 50 to 54: the anchor is the first \<open>a.self-link\<close> below the panel; when
  there is none, a new one becomes the first child of \<^verbatim>\<open>panel.div\<close>, and
  \<^verbatim>\<open>panel.div\<close> being \<open>None\<close> makes \<^verbatim>\<open>.insert\<close> raise.\<close>

definition ensure_anchor :: "node \<Rightarrow> error + (node \<times> nat list \<times> (nat list \<Rightarrow> nat list))" where
  "ensure_anchor panel =
     (case find_first is_self_link panel of
        Some a \<Rightarrow> Inr (panel, a, (\<lambda>r. r))
      | None \<Rightarrow>
          (case find_first is_div panel of
             None \<Rightarrow> Inl AttributeError
           | Some d \<Rightarrow> Inr (modify d (insert_kid 0 new_anchor) panel, d @ [0], after_insert d 0)))"

text \<open>\<^verbatim>\<open>a.next_sibling\<close>\<close>

definition next_sibling :: "nat list \<Rightarrow> node \<Rightarrow> node option" where
  "next_sibling a t =
     (case subtree (butlast a) t of
        None \<Rightarrow> None
      | Some par \<Rightarrow>
          if Suc (last a) < length (contents par) then Some (contents par ! Suc (last a))
          else None)"

text \<open>\<^verbatim>\<open>panel.div.append(marker)\<close>\<close>

definition append_to_div :: "node \<Rightarrow> node \<Rightarrow> error + node" where
  "append_to_div new panel =
     (case find_first is_div panel of
        None \<Rightarrow> Inl AttributeError
      | Some d \<Rightarrow> Inr (modify d (\<lambda>n. insert_kid (length (contents n)) new n) panel))"

text \<open>Lines 62 to 76, with the anchor at path \<open>a\<close>.\<close>

definition sync_marker :: "bool \<Rightarrow> nat list \<Rightarrow> node \<Rightarrow> error + (node \<times> (nat list \<Rightarrow> lref))" where
  "sync_marker exported a panel =
     (case find_first is_marker panel of
        None \<Rightarrow>
          if exported then
            (if (case next_sibling a panel of Some s \<Rightarrow> truthy_node s | None \<Rightarrow> False)
             then Inr (modify (butlast a) (insert_kid (Suc (last a)) new_marker) panel,
                       (\<lambda>r. Here (after_insert (butlast a) (Suc (last a)) r)))
             else (case append_to_div new_marker panel of
                     Inl e \<Rightarrow> Inl e
                   | Inr panel' \<Rightarrow> Inr (panel', Here)))
          else Inr (panel, Here)
      | Some m \<Rightarrow>
          if exported then Inr (panel, Here)
          else Inr (modify (butlast m) (remove_kid (last m)) panel,
                    after_remove (butlast m) (last m)))"

text \<open>Lines 42 to 47: \<^verbatim>\<open>dfn_map.get(dfn_id)\<close>, then \<^verbatim>\<open>dfn_map.get(dfn_suffix)\<close>
  when the first lookup found nothing.\<close>

definition resolve_dfn :: "(string \<rightharpoonup> 'a) \<Rightarrow> string \<Rightarrow> 'a option" where
  "resolve_dfn dfn_map dfn_suffix =
     (case dfn_map (dfn_id_of dfn_suffix) of None \<Rightarrow> dfn_map dfn_suffix | Some t \<Rightarrow> Some t)"

record outcome =
  tree :: node
  detached :: "node list"
  moved :: "nat list \<Rightarrow> lref"

text \<open>The body of the loop of \<^verbatim>\<open>process_file\<close> (lines 35 to 76) on the subtree of
  one panel; \<open>dfn_map\<close> is the index as the body reads it.\<close>

definition rewrite_panel :: "(string \<rightharpoonup> node option) \<Rightarrow> node \<Rightarrow> error + outcome" where
  "rewrite_panel dfn_map panel =
     (case panel_suffix panel of
        Inl e \<Rightarrow> Inl e
      | Inr None \<Rightarrow> Inr \<lparr>tree = panel, detached = [], moved = Here\<rparr>
      | Inr (Some dfn_suffix) \<Rightarrow>
          let dfn_id = dfn_id_of dfn_suffix;
              dfn_tag = resolve_dfn dfn_map dfn_suffix
          in (case ensure_anchor panel of
                Inl e \<Rightarrow> Inl e
              | Inr (p1, a, mv1) \<Rightarrow>
                  let old = (case subtree a p1 of Some n \<Rightarrow> contents n | None \<Rightarrow> []);
                      p2 = modify a (set_permalink dfn_id) p1
                  in (case export_status dfn_tag of
                        Inl e \<Rightarrow> Inl e
                      | Inr exported \<Rightarrow>
                          (case sync_marker exported a p2 of
                             Inl e \<Rightarrow> Inl e
                           | Inr (p3, mv3) \<Rightarrow>
                               Inr \<lparr>tree = p3, detached = old,
                                    moved = (\<lambda>r. case after_clear a (mv1 r) of
                                                   Here r' \<Rightarrow> mv3 r' | x \<Rightarrow> x)\<rparr>))))"

section \<open>The document\<close>

text \<open>The script holds references to tags across edits: the list \<open>panels\<close> and the
  values of \<open>dfn_map\<close>. A reference is a root and a path; root 0 is the document,
  the later roots are the subtrees that \<^verbatim>\<open>a.string = ...\<close> took out of it.
  \<open>Gone\<close> is a tag destroyed by \<^verbatim>\<open>decompose()\<close>.\<close>

datatype ref = Live nat "nat list" | Gone

fun deref :: "node list \<Rightarrow> ref \<Rightarrow> node option" where
  "deref roots Gone = None"
| "deref roots (Live i r) = (if i < length roots then subtree r (roots ! i) else None)"

fun relocate :: "nat \<Rightarrow> nat list \<Rightarrow> nat \<Rightarrow> (nat list \<Rightarrow> lref) \<Rightarrow> ref \<Rightarrow> ref" where
  "relocate i base n mv Gone = Gone"
| "relocate i base n mv (Live j r) =
     (if j = i \<and> take (length base) r = base then
        (case mv (drop (length base) r) of
           Here q \<Rightarrow> Live i (base @ q)
         | Away k q \<Rightarrow> Live (n + k) q
         | Lost \<Rightarrow> Gone)
      else Live j r)"

text \<open>Line 28: the dictionary comprehension over \<^verbatim>\<open>soup.find_all('dfn')\<close>. A later
  tag with the same id overwrites the entry; a list as key raises \<open>TypeError\<close>.\<close>

definition id_at :: "node \<Rightarrow> nat list \<Rightarrow> aval option" where
  "id_at soup r = (case subtree r soup of Some t \<Rightarrow> get_attr ''id'' t | None \<Rightarrow> None)"

fun index_dfns :: "node \<Rightarrow> nat list list \<Rightarrow> (string \<rightharpoonup> ref) \<Rightarrow> error + (string \<rightharpoonup> ref)" where
  "index_dfns soup [] m = Inr m"
| "index_dfns soup (r # rs) m =
     (case id_at soup r of
        None \<Rightarrow> index_dfns soup rs m
      | Some (Str s) \<Rightarrow>
          if s = [] then index_dfns soup rs m else index_dfns soup rs (m(s \<mapsto> Live 0 r))
      | Some (Toks ts) \<Rightarrow> if ts = [] then index_dfns soup rs m else Inl TypeError)"

definition is_dfn :: "node \<Rightarrow> bool" where
  "is_dfn = named ''dfn''"

definition dfn_index :: "node \<Rightarrow> error + (string \<rightharpoonup> ref)" where
  "dfn_index soup = index_dfns soup (find_all is_dfn soup) Map.empty"

text \<open>Line 31: \<^verbatim>\<open>soup.find_all('div', class_='dfn-panel')\<close>.\<close>

definition is_panel :: "node \<Rightarrow> bool" where
  "is_panel = named_class ''div'' ''dfn-panel''"

text \<open>Lines 33 to 76: the loop. \<^verbatim>\<open>panel.get('id')\<close> on a destroyed tag raises.\<close>

fun process_panels :: "(string \<rightharpoonup> ref) \<Rightarrow> ref list \<Rightarrow> node list \<Rightarrow> error + node list" where
  "process_panels dfn_map [] roots = Inr roots"
| "process_panels dfn_map (Gone # rs) roots = Inl AttributeError"
| "process_panels dfn_map (Live i r # rs) roots =
     (case deref roots (Live i r) of
        None \<Rightarrow> Inl AttributeError
      | Some panel \<Rightarrow>
          (case rewrite_panel (\<lambda>k. map_option (deref roots) (dfn_map k)) panel of
             Inl e \<Rightarrow> Inl e
           | Inr out \<Rightarrow>
               let mv = relocate i r (length roots) (moved out)
               in process_panels (\<lambda>k. map_option mv (dfn_map k)) (map mv rs)
                    (roots[i := modify r (\<lambda>_. tree out) (roots ! i)] @ detached out)))"

text \<open>Lines 25 to 76 on the parsed document: the tree that line 95 serializes.\<close>

definition transform :: "node \<Rightarrow> error + node" where
  "transform soup =
     (case dfn_index soup of
        Inl e \<Rightarrow> Inl e
      | Inr dfn_map \<Rightarrow>
          (case process_panels dfn_map (map (Live 0) (find_all is_panel soup)) [soup] of
             Inl e \<Rightarrow> Inl e
           | Inr roots \<Rightarrow> Inr (hd roots)))"

section \<open>Files and the command line\<close>

text \<open>\<^verbatim>\<open>Path.read_text(encoding='utf-8')\<close> opens the file in text mode: the bytes
  are decoded strictly, and universal newlines turn every \<open>\r\n\<close> and every lone
  \<open>\r\<close> into \<open>\n\<close>. \<^verbatim>\<open>Path.write_text\<close> writes \<open>os.linesep\<close> for each
  \<open>\n\<close>. A file is its bytes; a missing file makes the read raise.\<close>

fun universal_newlines :: "string \<Rightarrow> string" where
  "universal_newlines [] = []"
| "universal_newlines [c] = [if c = CHR 0x0D then CHR 0x0A else c]"
| "universal_newlines (c # d # cs) =
     (if c = CHR 0x0D \<and> d = CHR 0x0A then CHR 0x0A # universal_newlines cs
      else if c = CHR 0x0D then CHR 0x0A # universal_newlines (d # cs)
      else c # universal_newlines (d # cs))"

definition write_newlines :: "string \<Rightarrow> string \<Rightarrow> string" where
  "write_newlines linesep s = concat (map (\<lambda>c. if c = CHR 0x0A then linesep else [c]) s)"

definition byte :: "char \<Rightarrow> nat" where
  "byte c = of_char c"

definition cont :: "char \<Rightarrow> bool" where
  "cont c = (128 \<le> byte c \<and> byte c < 192)"

fun utf8_ok :: "string \<Rightarrow> bool" where
  "utf8_ok [] = True"
| "utf8_ok [c] = (byte c < 128)"
| "utf8_ok [c, c1] = (if byte c < 128 then byte c1 < 128 else 194 \<le> byte c \<and> byte c < 224 \<and> cont c1)"
| "utf8_ok [c, c1, c2] =
     (if byte c < 128 then utf8_ok [c1, c2]
      else if byte c < 224 then 194 \<le> byte c \<and> cont c1 \<and> byte c2 < 128
      else byte c < 240 \<and> cont c1 \<and> cont c2
        \<and> (byte c = 224 \<longrightarrow> 160 \<le> byte c1) \<and> (byte c = 237 \<longrightarrow> byte c1 < 160))"
| "utf8_ok (c # c1 # c2 # c3 # cs) =
     (if byte c < 128 then utf8_ok (c1 # c2 # c3 # cs)
      else if byte c < 224 then 194 \<le> byte c \<and> cont c1 \<and> utf8_ok (c2 # c3 # cs)
      else if byte c < 240 then
        cont c1 \<and> cont c2 \<and> (byte c = 224 \<longrightarrow> 160 \<le> byte c1)
          \<and> (byte c = 237 \<longrightarrow> byte c1 < 160) \<and> utf8_ok (c3 # cs)
      else byte c < 245 \<and> cont c1 \<and> cont c2 \<and> cont c3
        \<and> (byte c = 240 \<longrightarrow> 144 \<le> byte c1) \<and> (byte c = 244 \<longrightarrow> byte c1 < 144)
        \<and> utf8_ok cs)"

datatype event = Wrote string string | Printed string

record world =
  files :: "string \<rightharpoonup> string"
  trace :: "event list"

definition read_text :: "world \<Rightarrow> string \<Rightarrow> error + string" where
  "read_text w p =
     (case files w p of
        None \<Rightarrow> Inl FileNotFoundError
      | Some bytes \<Rightarrow>
          if utf8_ok bytes then Inr (universal_newlines bytes) else Inl UnicodeDecodeError)"

definition write_text :: "string \<Rightarrow> string \<Rightarrow> string \<Rightarrow> world \<Rightarrow> world" where
  "write_text linesep p s w =
     w\<lparr>files := (files w)(p \<mapsto> write_newlines linesep s),
       trace := trace w @ [Wrote p (write_newlines linesep s)]\<rparr>"

definition print :: "string \<Rightarrow> world \<Rightarrow> world" where
  "print line w = w\<lparr>trace := trace w @ [Printed line]\<rparr>"

text \<open>\<^verbatim>\<open>Path(f)\<close> on a POSIX system: the string is split at \<open>/\<close>, empty
  components and \<open>.\<close> are dropped, and the root is \<open>/\<close>, or \<open>//\<close> for exactly two
  leading slashes. \<^verbatim>\<open>str(p)\<close> joins the parts again and is \<open>.\<close> for the empty path.\<close>

datatype path = Path_parts string "string list"

fun split_sep :: "string \<Rightarrow> string list" where
  "split_sep [] = [[]]"
| "split_sep (c # cs) =
     (if c = CHR ''/'' then [] # split_sep cs
      else (case split_sep cs of [] \<Rightarrow> [[c]] | p # ps \<Rightarrow> (c # p) # ps))"

fun join_sep :: "string list \<Rightarrow> string" where
  "join_sep [] = []"
| "join_sep [t] = t"
| "join_sep (t # u # ts) = t @ ''/'' @ join_sep (u # ts)"

definition Path :: "string \<Rightarrow> path" where
  "Path s =
     (let root = (if starts_with ''/'' s
                  then (if starts_with ''//'' s \<and> \<not> starts_with ''///'' s then ''//'' else ''/'')
                  else [])
      in Path_parts root (filter (\<lambda>x. x \<noteq> [] \<and> x \<noteq> ''.'') (split_sep (drop (length root) s))))"

fun path_str :: "path \<Rightarrow> string" where
  "path_str (Path_parts root parts) =
     (if root = [] \<and> parts = [] then ''.'' else root @ join_sep parts)"

text \<open>\<^verbatim>\<open>p.name\<close> is the last part, \<^verbatim>\<open>p.suffix\<close> the part of the name from its last
  dot, when that dot is neither the first nor the last character, and
  \<^verbatim>\<open>p.with_suffix(s)\<close> replaces it, raising \<open>ValueError\<close> for a suffix that is not
  one and when the name is empty.\<close>

fun path_name :: "path \<Rightarrow> string" where
  "path_name (Path_parts root parts) = (if parts = [] then [] else last parts)"

definition path_suffix :: "path \<Rightarrow> string" where
  "path_suffix p =
     (let name = path_name p; ext = rev (takeWhile (\<lambda>c. c \<noteq> CHR ''.'') (rev name))
      in if CHR ''.'' \<in> set name \<and> ext \<noteq> [] \<and> Suc (length ext) < length name
         then CHR ''.'' # ext else [])"

fun with_suffix :: "path \<Rightarrow> string \<Rightarrow> error + path" where
  "with_suffix (Path_parts root parts) s =
     (if CHR ''/'' \<in> set s \<or> (s \<noteq> [] \<and> hd s \<noteq> CHR ''.'') \<or> s = ''.'' then Inl ValueError
      else if path_name (Path_parts root parts) = [] then Inl ValueError
      else let name = last parts
           in Inr (Path_parts root
                     (butlast parts
                        @ [take (length name - length (path_suffix (Path_parts root parts))) name @ s])))"

text \<open>\<^verbatim>\<open>process_file\<close>. The parser and the serializer of the markup library are
  parameters: \<open>parse\<close> is \<^verbatim>\<open>BeautifulSoup(html, 'html.parser')\<close> and
  \<open>serialize\<close> is \<^verbatim>\<open>str(soup)\<close>. An exception leaves the world as it was,
  since both writes come after the loop.\<close>

definition process_file ::
  "(string \<Rightarrow> node) \<Rightarrow> (node \<Rightarrow> string) \<Rightarrow> string \<Rightarrow> world \<Rightarrow> path \<Rightarrow> error + world" where
  "process_file parse serialize linesep w p =
     (case read_text w (path_str p) of
        Inl e \<Rightarrow> Inl e
      | Inr html \<Rightarrow>
          (case transform (parse html) of
             Inl e \<Rightarrow> Inl e
           | Inr soup \<Rightarrow>
               (case with_suffix p (path_suffix p @ ''.bak'') of
                  Inl e \<Rightarrow> Inl e
                | Inr bak \<Rightarrow>
                    Inr (print (''Processed '' @ path_str p @ '' -> backup '' @ path_str bak)
                          (write_text linesep (path_str p) (serialize soup)
                            (write_text linesep (path_str bak) html w))))))"

text \<open>The entry point: \<^verbatim>\<open>sys.exit(2)\<close> after the usage line, an exception that
  nothing catches, or the end of the loop over \<^verbatim>\<open>sys.argv[1:]\<close>, which hands
  \<^verbatim>\<open>Path(f)\<close> to \<^verbatim>\<open>process_file\<close>.\<close>

datatype status = Finished | SysExit nat | Uncaught error

fun process_files ::
  "(string \<Rightarrow> node) \<Rightarrow> (node \<Rightarrow> string) \<Rightarrow> string \<Rightarrow> string list \<Rightarrow> world \<Rightarrow> world \<times> status" where
  "process_files parse serialize linesep [] w = (w, Finished)"
| "process_files parse serialize linesep (f # fs) w =
     (case process_file parse serialize linesep w (Path f) of
        Inl e \<Rightarrow> (w, Uncaught e)
      | Inr w' \<Rightarrow> process_files parse serialize linesep fs w')"

definition main ::
  "(string \<Rightarrow> node) \<Rightarrow> (node \<Rightarrow> string) \<Rightarrow> string \<Rightarrow> string list \<Rightarrow> world \<Rightarrow> world \<times> status" where
  "main parse serialize linesep argv w =
     (if length argv < 2
      then (print ''Usage: rewrite_permalinks.py file1.html [file2.html ...]'' w, SysExit 2)
      else process_files parse serialize linesep (tl argv) w)"

section \<open>Notions used in the statements\<close>

text \<open>The number of nodes of a tree that satisfy \<open>p\<close>, the root included: the number
  of results of a search below \<open>t\<close> is the sum over the children of \<open>t\<close>.\<close>

fun cnt :: "(node \<Rightarrow> bool) \<Rightarrow> node \<Rightarrow> nat" where
  "cnt p (NavStr k s) = (if p (NavStr k s) then 1 else 0)"
| "cnt p (Tag nm as cs) = (if p (Tag nm as cs) then 1 else 0) + sum_list (map (cnt p) cs)"

text \<open>A node without its children. Every filter of the script looks at the name and
  the attributes of a tag only.\<close>

fun head :: "node \<Rightarrow> node" where
  "head (Tag nm as cs) = Tag nm as []"
| "head (NavStr k s) = NavStr k s"

definition head_pred :: "(node \<Rightarrow> bool) \<Rightarrow> bool" where
  "head_pred p = (\<forall>t. p t = p (head t))"

definition only :: "string \<Rightarrow> (node \<Rightarrow> bool) \<Rightarrow> bool" where
  "only nm p = (\<forall>t. p t \<longrightarrow> named nm t)"

fun is_tag :: "node \<Rightarrow> bool" where
  "is_tag (Tag nm as cs) = True"
| "is_tag (NavStr k s) = False"

text \<open>Every exported-marker span of the tree holds strings only (as the marker that
  the script creates does).\<close>

fun plain_markers :: "node \<Rightarrow> bool" where
  "plain_markers (NavStr k s) = True"
| "plain_markers (Tag nm as cs) =
     ((is_marker (Tag nm as cs) \<longrightarrow> (\<forall>c \<in> set cs. \<not> is_tag c)) \<and> (\<forall>c \<in> set cs. plain_markers c))"

text \<open>The data model of a panel: at most one permalink anchor and at most one exported
  marker below it.\<close>

definition tidy :: "node \<Rightarrow> bool" where
  "tidy panel =
     (plain_markers panel \<and> length (find_all is_self_link panel) \<le> 1
      \<and> length (find_all is_marker panel) \<le> 1)"

text \<open>Two paths are apart when neither node lies inside the other (nor are they the
  same node).\<close>

definition apart :: "nat list \<Rightarrow> nat list \<Rightarrow> bool" where
  "apart r s = (take (length r) s \<noteq> r \<and> take (length s) r \<noteq> s)"

fun pairwise_apart :: "nat list list \<Rightarrow> bool" where
  "pairwise_apart [] = True"
| "pairwise_apart (r # rs) = ((\<forall>s \<in> set rs. apart r s) \<and> pairwise_apart rs)"

text \<open>The definition node that lines 42 to 47 resolve for a panel suffix in the document
  as loaded, and the export condition in the words of the specification: the node carries
  the class token \<open>export\<close> or the attribute \<open>data-export\<close>.\<close>

definition dfn_view :: "node \<Rightarrow> string \<rightharpoonup> node option" where
  "dfn_view soup =
     (case dfn_index soup of
        Inl e \<Rightarrow> Map.empty
      | Inr dfn_map \<Rightarrow> (\<lambda>k. map_option (deref [soup]) (dfn_map k)))"

definition carries_export :: "node \<Rightarrow> bool" where
  "carries_export d =
     ((case get_attr ''class'' d of
         Some (Toks ts) \<Rightarrow> ''export'' \<in> set ts
       | Some (Str s) \<Rightarrow> contains_str ''export'' s
       | None \<Rightarrow> False)
      \<or> ''data-export'' \<in> fst ` set (attrs_of d))"

definition exported_for :: "node \<Rightarrow> string \<Rightarrow> bool" where
  "exported_for soup dfn_suffix =
     (case resolve_dfn (dfn_view soup) dfn_suffix of
        Some (Some d) \<Rightarrow> carries_export d
      | Some None \<Rightarrow> False
      | None \<Rightarrow> False)"

text \<open>The index as the loop body reads it later agrees with the index of the loaded
  document \<open>v0\<close>: the same keys, and tags with the same name and attributes unless they
  were destroyed. The references \<open>dmr\<close> into the roots track \<open>v0\<close> when each of them
  is destroyed or points to such a tag.\<close>

definition older :: "(string \<rightharpoonup> node option) \<Rightarrow> (string \<rightharpoonup> node option) \<Rightarrow> bool" where
  "older v0 v =
     (\<forall>k. case v k of
            None \<Rightarrow> v0 k = None
          | Some None \<Rightarrow> v0 k \<noteq> None
          | Some (Some d) \<Rightarrow> (\<exists>d0. v0 k = Some (Some d0) \<and> head d = head d0))"

definition tracks :: "(string \<rightharpoonup> node option) \<Rightarrow> (string \<rightharpoonup> ref) \<Rightarrow> node list \<Rightarrow> bool" where
  "tracks v0 dmr roots =
     (\<forall>k. case dmr k of
            None \<Rightarrow> v0 k = None
          | Some Gone \<Rightarrow> v0 k \<noteq> None
          | Some (Live j s) \<Rightarrow>
              (\<exists>d d0. deref roots (Live j s) = Some d \<and> v0 k = Some (Some d0)
                 \<and> head d = head d0 \<and> is_dfn d0))"

text \<open>The loop seen from the document: the panels at the paths \<open>rs\<close> are rewritten one
  after the other where they stand, each with an index that agrees with \<open>v0\<close>.\<close>

inductive steps :: "(string \<rightharpoonup> node option) \<Rightarrow> nat list list \<Rightarrow> node \<Rightarrow> node \<Rightarrow> bool"
  for v0 :: "string \<rightharpoonup> node option" where
  steps_Nil: "steps v0 [] t t"
| steps_Cons:
    "subtree r t = Some x \<Longrightarrow> older v0 dm \<Longrightarrow> rewrite_panel dm x = Inr out \<Longrightarrow>
     steps v0 rs (modify r (\<lambda>_. tree out) t) t' \<Longrightarrow> steps v0 (r # rs) t t'"

section \<open>Example documents\<close>

text \<open>\<^verbatim>\<open><div class="dfn-panel" id="dfn-panel-for-x"></div>\<close>\<close>

definition bare_panel :: node where
  "bare_panel =
     Tag ''[document]'' []
       [Tag ''div'' [(''class'', Toks [''dfn-panel'']), (''id'', Str ''dfn-panel-for-x'')] []]"

text \<open>A directory holding \<^verbatim>\<open>name.html\<close> with a Windows line ending.\<close>

definition crlf_world :: world where
  "crlf_world =
     \<lparr>files = [''name.html'' \<mapsto> [CHR ''a'', CHR 0x0D, CHR 0x0A, CHR ''b'']], trace = []\<rparr>"

definition empty_world :: world where
  "empty_world = \<lparr>files = Map.empty, trace = []\<rparr>"

definition empty_doc :: node where
  "empty_doc = Tag ''[document]'' [] []"

text \<open>The documents of the scenarios: a definition \<^verbatim>\<open>dfn-claims\<close>, exported or not,
  and its panel \<^verbatim>\<open>dfn-panel-for-dfn-claims\<close> with various contents; a panel whose
  identifier does not match; definitions with an empty and with a repeated id.\<close>

definition doc :: "node list \<Rightarrow> node" where
  "doc kids = Tag ''[document]'' [] kids"

definition dfn_exported :: node where
  "dfn_exported =
     Tag ''dfn'' [(''id'', Str ''dfn-claims''), (''class'', Toks [''export''])]
       [NavStr PlainText ''claims'']"

definition dfn_plain :: node where
  "dfn_plain = Tag ''dfn'' [(''id'', Str ''dfn-claims'')] [NavStr PlainText ''claims'']"

definition panel_for :: "node list \<Rightarrow> node" where
  "panel_for kids =
     Tag ''div'' [(''class'', Toks [''dfn-panel'']), (''id'', Str ''dfn-panel-for-dfn-claims'')] kids"

definition stale_marker :: node where
  "stale_marker =
     Tag ''span'' [(''class'', Toks [''marker'', ''dfn-exported''])] [NavStr PlainText ''exported'']"

definition old_anchor :: node where
  "old_anchor = Tag ''a'' [(''class'', Toks [''self-link'']), (''href'', Str ''#old'')] []"

definition scenario1 :: node where
  "scenario1 = doc [dfn_exported, panel_for [Tag ''div'' [] []]]"

definition scenario2 :: node where
  "scenario2 = doc [dfn_plain, panel_for [Tag ''div'' [] [old_anchor, stale_marker]]]"

definition two_markers :: node where
  "two_markers = doc [dfn_plain, panel_for [Tag ''div'' [] [], stale_marker, stale_marker]]"

definition two_anchors :: node where
  "two_anchors = doc [dfn_plain, panel_for [Tag ''div'' [] [old_anchor, old_anchor]]]"

definition widget :: "node list \<Rightarrow> node" where
  "widget kids = Tag ''div'' [(''class'', Toks [''dfn-panel'']), (''id'', Str ''random-widget'')] kids"

definition nested :: node where
  "nested = doc [widget [panel_for [Tag ''div'' [] []]]]"

definition lone_widget :: node where
  "lone_widget = doc [widget [stale_marker, old_anchor]]"

definition anchor_last :: node where
  "anchor_last = doc [dfn_exported, panel_for [Tag ''div'' [] [NavStr PlainText ''x''], old_anchor]]"

definition empty_id :: node where
  "empty_id = doc [Tag ''dfn'' [(''id'', Str [])] []]"

definition twins :: node where
  "twins = doc [Tag ''dfn'' [(''id'', Str ''x'')] [], Tag ''dfn'' [(''id'', Str ''x''), (''class'', Toks [''export''])] []]"

definition permalink_anchor :: node where
  "permalink_anchor = set_permalink ''dfn-claims'' new_anchor"

definition one_marker :: node where
  "one_marker = doc [dfn_plain, panel_for [Tag ''div'' [] [permalink_anchor], stale_marker]]"

definition sibling_panel :: node where
  "sibling_panel = panel_for [Tag ''div'' [] [permalink_anchor, NavStr PlainText ''Referenced in:'']]"

definition anchor_last_panel :: node where
  "anchor_last_panel = panel_for [Tag ''div'' [] [NavStr PlainText ''x''], permalink_anchor]"

definition dfn_data_export :: node where
  "dfn_data_export =
     Tag ''dfn'' [(''id'', Str ''dfn-claims''), (''data-export'', Str [])] [NavStr PlainText ''claims'']"

definition scenario_data :: node where
  "scenario_data = doc [dfn_data_export, panel_for [Tag ''div'' [] []]]"

definition panel_x :: "node list \<Rightarrow> node" where
  "panel_x kids =
     Tag ''div'' [(''class'', Toks [''dfn-panel'']), (''id'', Str ''dfn-panel-for-x'')] kids"

definition dfn_x_exported :: node where
  "dfn_x_exported = Tag ''dfn'' [(''id'', Str ''dfn-x''), (''class'', Toks [''export''])] []"

definition nested_matched :: node where
  "nested_matched = doc [panel_x [panel_for [Tag ''div'' [] []]]]"

definition nested_exported :: node where
  "nested_exported = doc [dfn_x_exported, panel_x [panel_for [Tag ''div'' [] []]]]"

definition marker_with_anchor :: node where
  "marker_with_anchor =
     doc [dfn_plain,
          panel_for [Tag ''div'' [] [],
                     Tag ''span'' [(''class'', Toks [''marker'', ''dfn-exported''])] [old_anchor]]]"

definition mixed :: node where
  "mixed = doc [widget [stale_marker, old_anchor], panel_for [Tag ''div'' [] []]]"

definition nested_two_markers :: node where
  "nested_two_markers = doc [panel_x [panel_for [Tag ''div'' [] [], stale_marker, stale_marker]]]"

section \<open>Properties\<close>

lemmas model_defs =
  transform_def dfn_index_def find_all_def find_first_def named_class_def get_attr_def
  has_attr_def is_panel_def is_dfn_def is_div_def is_self_link_def is_marker_def
  rewrite_panel_def panel_suffix_def match_panel_id_def starts_with_def first_line_def
  dfn_id_of_def resolve_dfn_def ensure_anchor_def sync_marker_def next_sibling_def
  append_to_div_def
  new_anchor_def new_marker_def id_at_def is_exported_def

lemmas file_defs =
  process_file_def read_text_def byte_def Path_def path_suffix_def starts_with_def
  write_text_def print_def write_newlines_def

lemmas example_defs =
  doc_def dfn_exported_def dfn_plain_def panel_for_def stale_marker_def old_anchor_def
  scenario1_def scenario2_def two_markers_def two_anchors_def widget_def nested_def
  lone_widget_def anchor_last_def empty_id_def twins_def permalink_anchor_def one_marker_def
  sibling_panel_def anchor_last_panel_def dfn_data_export_def scenario_data_def panel_x_def
  dfn_x_exported_def nested_matched_def nested_exported_def marker_with_anchor_def
  nested_two_markers_def mixed_def

lemmas notion_defs =
  apart_def dfn_view_def exported_for_def carries_export_def tidy_def

subsection \<open>Searches, paths and counts\<close>

lemma length_paths_from: "length (paths_from p k cs) = sum_list (map (cnt p) cs)"
  by (induction p k cs rule: paths_from.induct) auto

lemma length_find_all: "length (find_all p t) = sum_list (map (cnt p) (contents t))"
  by (simp add: find_all_def length_paths_from)

lemma cnt_eq: "cnt p t = (if p t then 1 else 0) + length (find_all p t)"
  by (cases t) (simp_all add: length_find_all)

lemma paths_from_Cons:
  "paths_from p k (c # cs) =
     (if p c then [[k]] else []) @ map ((#) k) (paths_from p 0 (contents c)) @ paths_from p (Suc k) cs"
  by (cases c) simp_all

lemma subtree_Cons_iff:
  "subtree (j # q) c = Some x \<longleftrightarrow> j < length (contents c) \<and> subtree q (contents c ! j) = Some x"
  by simp

lemma paths_from_complete:
  "i < length cs \<Longrightarrow> subtree q (cs ! i) = Some x \<Longrightarrow> p x \<Longrightarrow>
   (k + i) # q \<in> set (paths_from p k cs)"
proof (induction p k cs arbitrary: i q rule: paths_from.induct)
  case (1 p k)
  then show ?case by simp
next
  case (2 p k kd s cs)
  show ?case
  proof (cases i)
    case 0
    with "2.prems" show ?thesis by (cases q) auto
  next
    case (Suc j)
    with "2.prems" have "j < length cs" "subtree q (cs ! j) = Some x" by auto
    from "2.IH"[OF this "2.prems"(3)] show ?thesis by (simp add: Suc)
  qed
next
  case (3 p k nm as ds cs)
  show ?case
  proof (cases i)
    case 0
    show ?thesis
    proof (cases q)
      case Nil
      with 0 "3.prems" have "p (Tag nm as ds)" by simp
      then show ?thesis by (simp add: 0 Nil)
    next
      case (Cons j q')
      with 0 "3.prems" have "j < length ds" "subtree q' (ds ! j) = Some x"
        by (auto split: if_splits)
      from "3.IH"(1)[OF this "3.prems"(3)] show ?thesis by (simp add: 0 Cons)
    qed
  next
    case (Suc j)
    with "3.prems" have "j < length cs" "subtree q (cs ! j) = Some x" by auto
    from "3.IH"(2)[OF this "3.prems"(3)] show ?thesis by (simp add: Suc)
  qed
qed

lemma paths_from_sound:
  "r \<in> set (paths_from p k cs) \<Longrightarrow>
   \<exists>i q x. r = (k + i) # q \<and> i < length cs \<and> subtree q (cs ! i) = Some x \<and> p x"
proof (induction p k cs arbitrary: r rule: paths_from.induct)
  case (1 p k)
  then show ?case by simp
next
  case (2 p k kd s cs)
  from "2.prems" consider "r = [k]" "p (NavStr kd s)" | "r \<in> set (paths_from p (Suc k) cs)"
    by (auto split: if_splits)
  then show ?case
  proof cases
    case 1
    then show ?thesis by (intro exI[of _ 0] exI[of _ "[]"] exI[of _ "NavStr kd s"]) simp
  next
    case 2
    from "2.IH"[OF this] obtain i q x where
      "r = (Suc k + i) # q" "i < length cs" "subtree q (cs ! i) = Some x" "p x" by blast
    then show ?thesis by (intro exI[of _ "Suc i"] exI[of _ q] exI[of _ x]) simp
  qed
next
  case (3 p k nm as ds cs)
  from "3.prems" consider "r = [k]" "p (Tag nm as ds)"
    | q' where "r = k # q'" "q' \<in> set (paths_from p 0 ds)"
    | "r \<in> set (paths_from p (Suc k) cs)"
    by (auto split: if_splits)
  then show ?case
  proof cases
    case 1
    then show ?thesis by (intro exI[of _ 0] exI[of _ "[]"] exI[of _ "Tag nm as ds"]) simp
  next
    case 2
    from "3.IH"(1)[OF 2(2)] obtain i q x where
      "q' = (0 + i) # q" "i < length ds" "subtree q (ds ! i) = Some x" "p x" by blast
    with 2(1) show ?thesis by (intro exI[of _ 0] exI[of _ "i # q"] exI[of _ x]) simp
  next
    case 3
    from "3.IH"(2)[OF this] obtain i q x where
      "r = (Suc k + i) # q" "i < length cs" "subtree q (cs ! i) = Some x" "p x" by blast
    then show ?thesis by (intro exI[of _ "Suc i"] exI[of _ q] exI[of _ x]) simp
  qed
qed

lemma find_all_iff:
  "r \<in> set (find_all p t) \<longleftrightarrow> r \<noteq> [] \<and> (\<exists>x. subtree r t = Some x \<and> p x)"
proof
  assume "r \<in> set (find_all p t)"
  then obtain i q x where "r = (0 + i) # q" "i < length (contents t)"
    "subtree q (contents t ! i) = Some x" "p x"
    unfolding find_all_def by (blast dest: paths_from_sound)
  then show "r \<noteq> [] \<and> (\<exists>x. subtree r t = Some x \<and> p x)" by simp
next
  assume h: "r \<noteq> [] \<and> (\<exists>x. subtree r t = Some x \<and> p x)"
  then obtain i q where r: "r = i # q" by (cases r) auto
  with h obtain x where "i < length (contents t)" "subtree q (contents t ! i) = Some x" "p x"
    by (auto split: if_splits)
  then have "(0 + i) # q \<in> set (paths_from p 0 (contents t))"
    by (rule paths_from_complete)
  then show "r \<in> set (find_all p t)"
    by (simp add: find_all_def r)
qed

lemma find_first_None: "find_first p t = None \<longleftrightarrow> find_all p t = []"
  by (simp add: find_first_def split: list.splits)

lemma find_first_Some:
  "find_first p t = Some r \<Longrightarrow> r \<noteq> [] \<and> (\<exists>x. subtree r t = Some x \<and> p x) \<and> r \<in> set (find_all p t)"
  using find_all_iff[of r p t] by (auto simp: find_first_def split: list.splits)

lemma sum_list_upd: "i < length (xs::nat list) \<Longrightarrow> sum_list (xs[i := y]) + xs ! i = sum_list xs + y"
  by (induction xs arbitrary: i) (auto split: nat.splits)

lemma cnt_modify:
  "head_pred p \<Longrightarrow> subtree r t = Some x \<Longrightarrow> cnt p (modify r g t) + cnt p x = cnt p t + cnt p (g x)"
proof (induction r arbitrary: t)
  case Nil
  then show ?case by simp
next
  case (Cons i r)
  then obtain nm as cs where t: "t = Tag nm as cs" by (cases t) auto
  with Cons.prems have i: "i < length cs" and s: "subtree r (cs ! i) = Some x" by (auto split: if_splits)
  from Cons.IH[OF Cons.prems(1) s]
  have ih: "cnt p (modify r g (cs ! i)) + cnt p x = cnt p (cs ! i) + cnt p (g x)" .
  have hp: "p (Tag nm as (cs[i := modify r g (cs ! i)])) = p (Tag nm as cs)"
  proof -
    have "p (Tag nm as (cs[i := modify r g (cs ! i)])) = p (head (Tag nm as (cs[i := modify r g (cs ! i)])))"
      using Cons.prems(1) unfolding head_pred_def by blast
    also have "\<dots> = p (head (Tag nm as cs))" by simp
    also have "\<dots> = p (Tag nm as cs)"
      using Cons.prems(1) unfolding head_pred_def by blast
    finally show ?thesis .
  qed
  have "sum_list ((map (cnt p) cs)[i := cnt p (modify r g (cs ! i))]) + (map (cnt p) cs) ! i 
      = sum_list (map (cnt p) cs) + cnt p (modify r g (cs ! i))"
    using i by (intro sum_list_upd) simp
  with i ih hp show ?case by (simp add: t map_update)
qed

lemma head_predD:
  assumes "head_pred p" "head t = head u"
  shows "p t = p u"
proof -
  have "p t = p (head t)" using assms(1) unfolding head_pred_def by blast
  also have "\<dots> = p (head u)" by (simp add: assms(2))
  also have "\<dots> = p u" using assms(1) unfolding head_pred_def by blast
  finally show ?thesis .
qed

lemma head_pred_named [simp]: "head_pred (named nm)"
  unfolding head_pred_def by (rule allI, case_tac t) auto

lemma head_pred_named_class [simp]: "head_pred (named_class nm c)"
  unfolding head_pred_def by (rule allI, case_tac t) (auto simp: named_class_def get_attr_def)

lemma head_preds [simp]:
  "head_pred is_self_link" "head_pred is_marker" "head_pred is_panel" "head_pred is_dfn" "head_pred is_div"
  by (simp_all add: is_self_link_def is_marker_def is_panel_def is_dfn_def is_div_def)

lemma only_named [simp]: "only nm (named nm)"
  by (simp add: only_def)

lemma only_named_class [simp]: "only nm (named_class nm c)"
  by (simp add: only_def named_class_def)

lemma onlys [simp]:
  "only ''a'' is_self_link" "only ''span'' is_marker" "only ''div'' is_panel" "only ''dfn'' is_dfn"
  "only ''div'' is_div"
  by (simp_all add: is_self_link_def is_marker_def is_panel_def is_dfn_def is_div_def)

lemma only_not: "only nm p \<Longrightarrow> named nm' t \<Longrightarrow> nm \<noteq> nm' \<Longrightarrow> \<not> p t"
  by (cases t) (auto simp: only_def)

lemma only_NavStr [simp]: "only nm p \<Longrightarrow> \<not> p (NavStr k s)"
  by (auto simp: only_def)

lemma head_modify: "r \<noteq> [] \<Longrightarrow> head (modify r g t) = head t"
  by (cases r; cases t) auto

lemma head_insert_kid [simp]: "head (insert_kid i new t) = head t"
  by (cases t) auto

lemma head_remove_kid [simp]: "head (remove_kid i t) = head t"
  by (cases t) auto

lemma head_modify_gen:
  "subtree r t = Some x \<Longrightarrow> head (g x) = head x \<Longrightarrow> head (modify r g t) = head t"
  by (cases "r = []") (auto simp: head_modify)

lemma subtree_modify_same:
  "subtree r t = Some x \<Longrightarrow> subtree r (modify r g t) = Some (g x)"
proof (induction r arbitrary: t)
  case Nil
  then show ?case by simp
next
  case (Cons i r)
  then show ?case by (cases t) (auto split: if_splits)
qed

lemma modify_fixed:
  "subtree r t = Some x \<Longrightarrow> g x = x \<Longrightarrow> modify r g t = t"
proof (induction r arbitrary: t)
  case Nil
  then show ?case by simp
next
  case (Cons i r)
  then show ?case by (cases t) (auto split: if_splits)
qed

lemma subtree_append:
  "subtree (r @ s) t = (case subtree r t of None \<Rightarrow> None | Some x \<Rightarrow> subtree s x)"
  by (induction r arbitrary: t) auto

lemma subtree_snoc:
  "subtree (r @ [i]) t = Some x \<longleftrightarrow>
     (\<exists>par. subtree r t = Some par \<and> i < length (contents par) \<and> contents par ! i = x)"
  by (auto simp: subtree_append split: option.splits)

lemma subtree_parent:
  assumes "a \<noteq> []" "subtree a t = Some x"
  shows "\<exists>par. subtree (butlast a) t = Some par \<and> last a < length (contents par)
           \<and> contents par ! last a = x"
proof -
  from assms(1) have "a = butlast a @ [last a]" by simp
  with assms(2) have "subtree (butlast a @ [last a]) t = Some x" by simp
  then show ?thesis unfolding subtree_snoc .
qed

lemma count_below:
  "head_pred p \<Longrightarrow> head t' = head t \<Longrightarrow> cnt p t' + m = cnt p t + n \<Longrightarrow>
   length (find_all p t') + m = length (find_all p t) + n"
  using head_predD[of p t' t] by (simp add: cnt_eq split: if_splits)

lemma sum_take_drop:
  "sum_list (map f (take i cs)) + sum_list (map f (drop i cs)) = sum_list (map (f::'a \<Rightarrow> nat) cs)"
proof -
  have "sum_list (map f (take i cs)) + sum_list (map f (drop i cs))
      = sum_list (map f (take i cs @ drop i cs))"
    by (simp only: map_append sum_list_append)
  then show ?thesis by simp
qed

lemma cnt_insert_kid:
  "head_pred p \<Longrightarrow> contents t \<noteq> [] \<or> named nm t \<Longrightarrow> cnt p (insert_kid i new t) = cnt p t + cnt p new"
proof (cases t)
  case (NavStr k s)
  assume "contents t \<noteq> [] \<or> named nm t"
  with NavStr show ?thesis by simp
next
  case (Tag nm' as cs)
  assume hp: "head_pred p"
  have "p (Tag nm' as (take i cs @ new # drop i cs)) = p (Tag nm' as cs)"
    using hp by (intro head_predD) simp_all
  moreover have "sum_list (map (cnt p) (take i cs)) + sum_list (map (cnt p) (drop i cs))
      = sum_list (map (cnt p) cs)" by (rule sum_take_drop)
  ultimately show ?thesis using Tag by simp
qed

lemma cnt_remove_kid:
  assumes "head_pred p" "k < length (contents t)"
  shows "cnt p (remove_kid k t) + cnt p (contents t ! k) = cnt p t"
proof (cases t)
  case (NavStr kd s)
  with assms show ?thesis by simp
next
  case (Tag nm as cs)
  have hp: "p (Tag nm as (take k cs @ drop (Suc k) cs)) = p (Tag nm as cs)"
    using assms(1) by (intro head_predD) simp_all
  have "take k cs @ cs ! k # drop (Suc k) cs = cs"
    using assms(2) Tag by (simp add: id_take_nth_drop[symmetric])
  moreover have "sum_list (map (cnt p) (take k cs @ cs ! k # drop (Suc k) cs))
      = sum_list (map (cnt p) (take k cs)) + cnt p (cs ! k) + sum_list (map (cnt p) (drop (Suc k) cs))"
    by simp
  ultimately have "sum_list (map (cnt p) cs)
      = sum_list (map (cnt p) (take k cs)) + cnt p (cs ! k) + sum_list (map (cnt p) (drop (Suc k) cs))"
    by (simp only:)
  with hp Tag show ?thesis by simp
qed

subsection \<open>The stages of the loop body\<close>

lemma map_of_set_item:
  "map_of (set_item k v as) k' = (if k' = k then Some v else map_of as k')"
  by (induction as) auto

lemma set_permalink_self_link:
  "is_self_link x \<Longrightarrow> is_self_link (set_permalink i x)"
  by (cases x) (auto simp: is_self_link_def named_class_def get_attr_def map_of_set_item)

lemma set_permalink_head_class:
  "named ''a'' x \<Longrightarrow> named ''a'' (set_permalink i x)"
  by (cases x) auto

lemma only_Tag: "only nm q \<Longrightarrow> q (Tag nm' as cs) \<Longrightarrow> nm' = nm"
  by (auto simp: only_def)

lemma cnt_set_permalink_other:
  "only nm q \<Longrightarrow> nm \<noteq> ''a'' \<Longrightarrow> named ''a'' x \<Longrightarrow> cnt q (set_permalink i x) = 0"
  by (cases x) (auto dest: only_Tag)

lemma cnt_set_permalink_self:
  "is_self_link x \<Longrightarrow> cnt is_self_link (set_permalink i x) = 1"
  using set_permalink_self_link[of x i] by (cases x) (auto simp: is_self_link_def named_class_def)

lemma cnt_new_anchor: "only nm q \<Longrightarrow> nm \<noteq> ''a'' \<Longrightarrow> cnt q new_anchor = 0"
  by (auto simp: new_anchor_def dest: only_Tag)

lemma cnt_new_marker: "only nm q \<Longrightarrow> nm \<noteq> ''span'' \<Longrightarrow> cnt q new_marker = 0"
  by (auto simp: new_marker_def dest: only_Tag)

lemma is_self_link_new_anchor [simp]: "is_self_link new_anchor"
  by (simp add: is_self_link_def named_class_def new_anchor_def get_attr_def)

lemma is_marker_new_marker [simp]: "is_marker new_marker"
  by (simp add: is_marker_def named_class_def new_marker_def get_attr_def)

lemma cnt_self_new_anchor [simp]: "cnt is_self_link new_anchor = 1"
  using is_self_link_new_anchor by (simp add: new_anchor_def)

lemma cnt_marker_new_marker [simp]: "cnt is_marker new_marker = 1"
  using is_marker_new_marker by (simp add: new_marker_def is_marker_def named_class_def)

lemma ensure_anchor_ok:
  assumes "ensure_anchor panel = Inr (p1, a, mv1)"
  shows "a \<noteq> []" and "\<exists>x. subtree a p1 = Some x \<and> is_self_link x" and "head p1 = head panel"
    and "head_pred q \<Longrightarrow>
         cnt q p1 = cnt q panel + (if find_first is_self_link panel = None then cnt q new_anchor else 0)"
proof -
  show "a \<noteq> []" using assms
    by (auto simp: ensure_anchor_def split: option.splits dest: find_first_Some)
  show "\<exists>x. subtree a p1 = Some x \<and> is_self_link x"
  proof (cases "find_first is_self_link panel")
    case (Some a')
    with assms show ?thesis by (auto simp: ensure_anchor_def dest: find_first_Some)
  next
    case None
    with assms obtain d where d: "find_first is_div panel = Some d"
      "p1 = modify d (insert_kid 0 new_anchor) panel" "a = d @ [0]"
      by (auto simp: ensure_anchor_def split: option.splits)
    from find_first_Some[OF d(1)] obtain dv where dv: "subtree d panel = Some dv" "is_div dv" by blast
    then obtain nm as cs where "dv = Tag nm as cs" by (cases dv) (auto simp: is_div_def)
    with subtree_modify_same[OF dv(1), of "insert_kid 0 new_anchor"] d
    show ?thesis by (simp add: subtree_append)
  qed
  show "head p1 = head panel" using assms
    by (auto simp: ensure_anchor_def head_modify split: option.splits dest: find_first_Some)
  show "cnt q p1 = cnt q panel + (if find_first is_self_link panel = None then cnt q new_anchor else 0)"
    if hq: "head_pred q"
  proof (cases "find_first is_self_link panel")
    case (Some a')
    with assms show ?thesis by (auto simp: ensure_anchor_def)
  next
    case None
    with assms obtain d where d: "find_first is_div panel = Some d"
      "p1 = modify d (insert_kid 0 new_anchor) panel"
      by (auto simp: ensure_anchor_def split: option.splits)
    from find_first_Some[OF d(1)] obtain dv where dv: "subtree d panel = Some dv" "is_div dv" by blast
    then have "named ''div'' dv" by (simp add: is_div_def)
    with cnt_insert_kid[OF hq, of dv "''div''" 0 new_anchor]
    have "cnt q (insert_kid 0 new_anchor dv) = cnt q dv + cnt q new_anchor" by simp
    with cnt_modify[OF hq dv(1), of "insert_kid 0 new_anchor"] show ?thesis
      by (simp add: d(2) None)
  qed
qed

lemma insert_at_parent:
  assumes "subtree r t = Some par" "contents par \<noteq> [] \<or> named nm par" "head_pred q"
  shows "head (modify r (insert_kid i new) t) = head t"
    and "cnt q (modify r (insert_kid i new) t) = cnt q t + cnt q new"
proof -
  show "head (modify r (insert_kid i new) t) = head t"
    using assms(1) by (rule head_modify_gen) simp
  from cnt_insert_kid[OF assms(3) assms(2), of i new]
    cnt_modify[OF assms(3) assms(1), of "insert_kid i new"]
  show "cnt q (modify r (insert_kid i new) t) = cnt q t + cnt q new" by simp
qed

lemma append_to_div_ok:
  assumes "append_to_div new t = Inr t'" "head_pred q"
  shows "head t' = head t" and "cnt q t' = cnt q t + cnt q new"
proof -
  from assms(1) obtain d where d: "find_first is_div t = Some d"
    "t' = modify d (\<lambda>n. insert_kid (length (contents n)) new n) t"
    by (auto simp: append_to_div_def split: option.splits)
  from find_first_Some[OF d(1)] obtain dv where dv: "subtree d t = Some dv" "is_div dv" "d \<noteq> []"
    by blast
  show "head t' = head t" using dv(3) by (simp add: d(2) head_modify)
  have "named ''div'' dv" using dv(2) by (simp add: is_div_def)
  with cnt_insert_kid[OF assms(2), of dv "''div''" "length (contents dv)" new]
    cnt_modify[OF assms(2) dv(1), of "\<lambda>n. insert_kid (length (contents n)) new n"]
  show "cnt q t' = cnt q t + cnt q new" by (simp add: d(2))
qed

lemma sync_marker_create:
  assumes "sync_marker ex a p2 = Inr (p3, mv3)" "ex" "find_first is_marker p2 = None"
    "a \<noteq> []" "subtree a p2 = Some x" "head_pred q"
  shows "head p3 = head p2" and "cnt q p3 = cnt q p2 + cnt q new_marker"
proof -
  from subtree_parent[OF assms(4,5)] obtain par where
    par: "subtree (butlast a) p2 = Some par" "last a < length (contents par)" by blast
  then have ne: "contents par \<noteq> [] \<or> named [] par" by auto
  show "head p3 = head p2" using assms(1,2,3)
    insert_at_parent(1)[OF par(1) ne assms(6), of "Suc (last a)" new_marker]
    by (auto simp: sync_marker_def split: if_splits sum.splits dest: append_to_div_ok(1)[OF _ assms(6)])
  show "cnt q p3 = cnt q p2 + cnt q new_marker" using assms(1,2,3)
    insert_at_parent(2)[OF par(1) ne assms(6), of "Suc (last a)" new_marker]
    by (auto simp: sync_marker_def split: if_splits sum.splits dest: append_to_div_ok(2)[OF _ assms(6)])
qed

lemma sync_marker_keep:
  assumes "sync_marker ex a p2 = Inr (p3, mv3)"
    "ex \<longleftrightarrow> find_first is_marker p2 \<noteq> None"
  shows "p3 = p2"
  using assms by (auto simp: sync_marker_def split: option.splits if_splits)

lemma sync_marker_remove:
  assumes "sync_marker ex a p2 = Inr (p3, mv3)" "\<not> ex" "find_first is_marker p2 = Some m"
    "head_pred q"
  shows "head p3 = head p2"
    and "\<exists>y. subtree m p2 = Some y \<and> is_marker y \<and> cnt q p3 + cnt q y = cnt q p2"
    and "p3 = modify (butlast m) (remove_kid (last m)) p2"
proof -
  from find_first_Some[OF assms(3)] obtain y where y: "m \<noteq> []" "subtree m p2 = Some y" "is_marker y"
    by blast
  from subtree_parent[OF y(1,2)] obtain par where
    par: "subtree (butlast m) p2 = Some par" "last m < length (contents par)"
      "contents par ! last m = y" by blast
  show p3: "p3 = modify (butlast m) (remove_kid (last m)) p2"
    using assms(1,2,3) by (simp add: sync_marker_def)
  show "head p3 = head p2" unfolding p3 using par(1) by (rule head_modify_gen) simp
  from cnt_remove_kid[OF assms(4) par(2)] cnt_modify[OF assms(4) par(1), of "remove_kid (last m)"]
  have "cnt q p3 + cnt q y = cnt q p2" by (simp add: p3 par(3))
  with y show "\<exists>y. subtree m p2 = Some y \<and> is_marker y \<and> cnt q p3 + cnt q y = cnt q p2" by blast
qed

lemma rewrite_panel_matched:
  assumes "rewrite_panel dm panel = Inr out" "panel_suffix panel = Inr (Some sfx)"
  obtains p1 a mv1 x ex mv3 where
    "ensure_anchor panel = Inr (p1, a, mv1)" "subtree a p1 = Some x" "is_self_link x" "a \<noteq> []"
    "export_status (resolve_dfn dm sfx) = Inr ex"
    "sync_marker ex a (modify a (set_permalink (dfn_id_of sfx)) p1) = Inr (tree out, mv3)"
    "detached out = contents x"
proof -
  from assms obtain p1 a mv1 where e: "ensure_anchor panel = Inr (p1, a, mv1)"
    by (auto simp: rewrite_panel_def Let_def split: sum.splits prod.splits)
  from ensure_anchor_ok(1,2)[OF e] obtain x where x: "a \<noteq> []" "subtree a p1 = Some x" "is_self_link x"
    by blast
  from assms e obtain ex where ex: "export_status (resolve_dfn dm sfx) = Inr ex"
    by (auto simp: rewrite_panel_def Let_def split: sum.splits prod.splits)
  from assms e ex x obtain mv3 where
    "sync_marker ex a (modify a (set_permalink (dfn_id_of sfx)) p1) = Inr (tree out, mv3)"
    "detached out = contents x"
    by (auto simp: rewrite_panel_def Let_def split: sum.splits prod.splits)
  with e x ex that show ?thesis by blast
qed

lemma after_permalink:
  assumes "subtree a p1 = Some x" "a \<noteq> []" "head_pred q"
  shows "head (modify a (set_permalink i) p1) = head p1"
    and "cnt q (modify a (set_permalink i) p1) + cnt q x = cnt q p1 + cnt q (set_permalink i x)"
    and "subtree a (modify a (set_permalink i) p1) = Some (set_permalink i x)"
  using assms by (simp_all add: head_modify cnt_modify subtree_modify_same)

lemma is_self_link_named: "is_self_link x \<Longrightarrow> named ''a'' x"
  by (simp add: is_self_link_def named_class_def)

lemma is_marker_cnt: "is_marker y \<Longrightarrow> 1 \<le> cnt is_marker y"
  by (cases y) auto

lemma find_first_None_len: "find_first p t = None \<longleftrightarrow> length (find_all p t) = 0"
  by (simp add: find_first_None)

lemma rewrite_panel_head:
  assumes "rewrite_panel dm panel = Inr out"
  shows "head (tree out) = head panel"
proof (cases "panel_suffix panel")
  case (Inl e)
  with assms show ?thesis by (simp add: rewrite_panel_def)
next
  case (Inr so)
  show ?thesis
  proof (cases so)
    case None
    with Inr assms show ?thesis by (auto simp: rewrite_panel_def)
  next
    case (Some sfx)
    from rewrite_panel_matched[OF assms Inr[unfolded Some]] obtain p1 a mv1 x ex mv3 where
      h: "ensure_anchor panel = Inr (p1, a, mv1)" "subtree a p1 = Some x" "is_self_link x" "a \<noteq> []"
      "sync_marker ex a (modify a (set_permalink (dfn_id_of sfx)) p1) = Inr (tree out, mv3)"
      by metis
    let ?p2 = "modify a (set_permalink (dfn_id_of sfx)) p1"
    have h1: "head p1 = head panel" by (rule ensure_anchor_ok(3)[OF h(1)])
    have h2: "head ?p2 = head p1" using h(4) by (simp add: head_modify)
    have s2: "subtree a ?p2 = Some (set_permalink (dfn_id_of sfx) x)"
      using h(2) by (rule subtree_modify_same)
    have "head (tree out) = head ?p2"
    proof (cases "find_first is_marker ?p2")
      case None
      show ?thesis
      proof (cases ex)
        case True
        from sync_marker_create(1)[OF h(5) True None h(4) s2 head_pred_named]
        show ?thesis .
      next
        case False
        with None sync_marker_keep[OF h(5)] show ?thesis by simp
      qed
    next
      case (Some m)
      show ?thesis
      proof (cases ex)
        case True
        with Some sync_marker_keep[OF h(5)] show ?thesis by simp
      next
        case False
        from sync_marker_remove(1)[OF h(5) False Some head_pred_named] show ?thesis .
      qed
    qed
    with h1 h2 show ?thesis by simp
  qed
qed

lemma markers_after:
  assumes r: "rewrite_panel dm panel = Inr out" and m: "panel_suffix panel = Inr (Some sfx)"
    and one: "length (find_all is_marker panel) \<le> 1"
    and ex: "export_status (resolve_dfn dm sfx) = Inr ex"
  shows "length (find_all is_marker (tree out)) = (if ex then 1 else 0)"
proof -
  from rewrite_panel_matched[OF r m] obtain p1 a mv1 x ex' mv3 where
    h: "ensure_anchor panel = Inr (p1, a, mv1)" "subtree a p1 = Some x" "is_self_link x" "a \<noteq> []"
    "export_status (resolve_dfn dm sfx) = Inr ex'"
    "sync_marker ex' a (modify a (set_permalink (dfn_id_of sfx)) p1) = Inr (tree out, mv3)"
    by metis
  with ex have e: "ex' = ex" by simp
  let ?i = "dfn_id_of sfx"
  let ?p2 = "modify a (set_permalink ?i) p1"
  note h6 = h(6)[unfolded e]
  have hq: "head_pred is_marker" by simp
  have c1: "cnt is_marker p1 = cnt is_marker panel"
    using ensure_anchor_ok(4)[OF h(1) hq] cnt_new_anchor[of "''span''" is_marker] by simp
  have "cnt is_marker (set_permalink ?i x) = 0"
    using h(3) by (intro cnt_set_permalink_other[of "''span''"]) (simp_all add: is_self_link_named)
  with after_permalink(2)[OF h(2,4) hq, of ?i] c1
  have c2: "cnt is_marker ?p2 \<le> cnt is_marker panel" by simp
  have h2: "head ?p2 = head panel"
    using after_permalink(1)[OF h(2,4) hq] ensure_anchor_ok(3)[OF h(1)] by simp
  have s2: "subtree a ?p2 = Some (set_permalink ?i x)"
    using h(2) by (rule subtree_modify_same)
  from c2 obtain k where "cnt is_marker ?p2 + k = cnt is_marker panel + 0"
    by (metis add.right_neutral le_Suc_ex)
  from count_below[OF hq h2 this] one have l2: "length (find_all is_marker ?p2) \<le> 1"
    by simp
  show ?thesis
  proof (cases "find_first is_marker ?p2")
    case None
    then have z: "length (find_all is_marker ?p2) = 0" by (simp add: find_first_None)
    show ?thesis
    proof (cases ex)
      case True
      from sync_marker_create[OF h6 True None h(4) s2 hq]
      have "head (tree out) = head ?p2" "cnt is_marker (tree out) + 0 = cnt is_marker ?p2 + 1"
        by simp_all
      from count_below[OF hq this] z True show ?thesis by simp
    next
      case False
      with None sync_marker_keep[OF h6] z show ?thesis by simp
    qed
  next
    case (Some mk)
    then have nz: "1 \<le> length (find_all is_marker ?p2)"
      by (cases "find_all is_marker ?p2") (auto simp: find_first_def)
    show ?thesis
    proof (cases ex)
      case True
      with Some sync_marker_keep[OF h6] have "tree out = ?p2" by simp
      with nz l2 True show ?thesis by simp
    next
      case False
      from sync_marker_remove(1,2)[OF h6 False Some hq]
      obtain y where y: "head (tree out) = head ?p2" "is_marker y"
        "cnt is_marker (tree out) + cnt is_marker y = cnt is_marker ?p2" by blast
      from count_below[OF hq y(1), of "cnt is_marker y" 0] y(3)
      have "length (find_all is_marker (tree out)) + cnt is_marker y
          = length (find_all is_marker ?p2)" by simp
      with is_marker_cnt[OF y(2)] l2 have "length (find_all is_marker (tree out)) = 0" by arith
      with False show ?thesis by simp
    qed
  qed
qed

subsection \<open>The anchor survives the marker edits\<close>

lemma plain_subtree: "plain_markers t \<Longrightarrow> subtree r t = Some y \<Longrightarrow> plain_markers y"
proof (induction r arbitrary: t)
  case Nil
  then show ?case by simp
next
  case (Cons i r)
  from Cons.prems(2) obtain nm as cs where t: "t = Tag nm as cs" by (cases t) auto
  with Cons.prems have i: "i < length cs" "subtree r (cs ! i) = Some y" by (auto split: if_splits)
  from Cons.prems(1) t i(1) have "plain_markers (cs ! i)" by simp
  from Cons.IH[OF this i(2)] show ?case .
qed

lemma subtree_is_tag: "subtree (i # r) t = Some x \<Longrightarrow> is_tag t"
  by (cases t) auto

lemma plain_marker_kids:
  assumes "plain_markers y" "is_marker y" "subtree (j # s) y = Some x"
  shows "\<not> is_tag x"
proof -
  from assms obtain nm as cs where y: "y = Tag nm as cs" by (cases y) auto
  with assms have j: "j < length cs" "subtree s (cs ! j) = Some x" by (auto split: if_splits)
  from assms(1,2) y j(1) have nt: "\<not> is_tag (cs ! j)" by auto
  show ?thesis
  proof (cases s)
    case Nil
    with j nt show ?thesis by simp
  next
    case (Cons k s')
    from j(2)[unfolded Cons] have "is_tag (cs ! j)" by (rule subtree_is_tag)
    with nt show ?thesis by simp
  qed
qed

lemma plain_modify:
  "plain_markers t \<Longrightarrow> subtree r t = Some x \<Longrightarrow> plain_markers (g x) \<Longrightarrow>
   is_tag (g x) = is_tag x \<Longrightarrow> plain_markers (modify r g t)"
proof (induction r arbitrary: t)
  case Nil
  then show ?case by simp
next
  case (Cons i r)
  from Cons.prems(2) obtain nm as cs where t: "t = Tag nm as cs" by (cases t) auto
  with Cons.prems have i: "i < length cs" and s: "subtree r (cs ! i) = Some x"
    by (auto split: if_splits)
  let ?c = "modify r g (cs ! i)"
  from Cons.prems(1) t i have pc: "plain_markers (cs ! i)" by auto
  from Cons.IH[OF pc s Cons.prems(3,4)] have c: "plain_markers ?c" .
  have tag: "is_tag ?c = is_tag (cs ! i)"
  proof (cases r)
    case Nil
    with s Cons.prems(4) show ?thesis by simp
  next
    case (Cons k r')
    from s[unfolded Cons] have ti: "is_tag (cs ! i)" by (rule subtree_is_tag)
    then have "is_tag ?c" unfolding Cons by (cases "cs ! i") auto
    with ti show ?thesis by simp
  qed
  have m: "is_marker (Tag nm as (cs[i := ?c])) = is_marker (Tag nm as cs)"
    by (rule head_predD) simp_all
  have all: "\<forall>c \<in> set (cs[i := ?c]). plain_markers c"
    using Cons.prems(1) c t by (auto dest!: set_update_subset_insert[THEN subsetD])
  have "\<forall>c \<in> set (cs[i := ?c]). \<not> is_tag c" if "is_marker (Tag nm as cs)"
  proof -
    from that Cons.prems(1) t have a: "\<forall>c \<in> set cs. \<not> is_tag c" by simp
    with i have "\<not> is_tag (cs ! i)" by simp
    with tag have "\<not> is_tag ?c" by simp
    with a show ?thesis by (auto dest!: set_update_subset_insert[THEN subsetD])
  qed
  with m all show ?case by (simp add: t)
qed

lemma subtree_other_kid:
  "k \<noteq> j \<Longrightarrow> subtree (k # s) (modify (j # r) g t) = subtree (k # s) t"
  by (cases t) auto

lemma nth_insert_after:
  "j \<le> k \<Longrightarrow> k < length cs \<Longrightarrow> (take j cs @ new # drop j cs) ! Suc k = cs ! k"
  by (simp add: nth_append min_def Suc_diff_le)

lemma nth_remove_after:
  "j < k \<Longrightarrow> k < length cs \<Longrightarrow> (take j cs @ drop (Suc j) cs) ! (k - 1) = cs ! k"
proof -
  assume a: "j < k" "k < length cs"
  then obtain k' where k: "k = Suc k'" by (cases k) auto
  with a have "j \<le> k'" by simp
  with a k show ?thesis by (simp add: nth_append min_def)
qed

lemma keeps_after_insert:
  "subtree a t = Some x \<Longrightarrow> a \<noteq> [] \<Longrightarrow> subtree r t = Some par \<Longrightarrow>
   take (length a) r \<noteq> a \<Longrightarrow>
   \<exists>a'. a' \<noteq> [] \<and> subtree a' (modify r (insert_kid j new) t) = Some x"
proof (induction r arbitrary: a t)
  case Nil
  then obtain k s where a: "a = k # s" by (cases a) auto
  with Nil.prems(1) obtain nm as cs where t: "t = Tag nm as cs" by (cases t) auto
  with a Nil.prems(1) have k: "k < length cs" "subtree s (cs ! k) = Some x" by (auto split: if_splits)
  show ?case
  proof (cases "k < j")
    case True
    with k have "subtree (k # s) (modify [] (insert_kid j new) t) = Some x"
      by (simp add: t nth_append)
    then show ?thesis by blast
  next
    case False
    then have "j \<le> k" by simp
    from nth_insert_after[OF this k(1), of new] k
    have "subtree (Suc k # s) (modify [] (insert_kid j new) t) = Some x"
      by (simp add: t)
    then show ?thesis by blast
  qed
next
  case (Cons i r)
  then obtain k s where a: "a = k # s" by (cases a) auto
  from Cons.prems(3) obtain nm as cs where t: "t = Tag nm as cs" by (cases t) auto
  with a Cons.prems have k: "k < length cs" "subtree s (cs ! k) = Some x"
    and i: "i < length cs" "subtree r (cs ! i) = Some par" by (auto split: if_splits)
  show ?case
  proof (cases "k = i")
    case False
    from subtree_other_kid[OF this, of s r "insert_kid j new" t] Cons.prems(1)
    have "subtree a (modify (i # r) (insert_kid j new) t) = Some x"
      unfolding a by (simp only:)
    with Cons.prems(2) show ?thesis by blast
  next
    case True
    with Cons.prems(4) a have ne: "take (length s) r \<noteq> s" by simp
    then have "s \<noteq> []" by auto
    from Cons.IH[OF k(2)[unfolded True] this i(2) ne] obtain a' where
      "a' \<noteq> []" "subtree a' (modify r (insert_kid j new) (cs ! i)) = Some x" by blast
    with i(1) have "subtree (i # a') (modify (i # r) (insert_kid j new) t) = Some x"
      by (simp add: t)
    then show ?thesis by blast
  qed
qed

lemma keeps_after_remove:
  "subtree a t = Some x \<Longrightarrow> a \<noteq> [] \<Longrightarrow> m \<noteq> [] \<Longrightarrow> subtree m t = Some y \<Longrightarrow>
   take (length a) m \<noteq> a \<Longrightarrow> take (length m) a \<noteq> m \<Longrightarrow>
   \<exists>a'. a' \<noteq> [] \<and> subtree a' (modify (butlast m) (remove_kid (last m)) t) = Some x"
proof (induction m arbitrary: a t)
  case Nil
  then show ?case by simp
next
  case (Cons j m')
  then obtain k s where a: "a = k # s" by (cases a) auto
  from Cons.prems(4) obtain nm as cs where t: "t = Tag nm as cs" by (cases t) auto
  with a Cons.prems have k: "k < length cs" "subtree s (cs ! k) = Some x"
    and j: "j < length cs" "subtree m' (cs ! j) = Some y" by (auto split: if_splits)
  show ?case
  proof (cases "m' = []")
    case True
    with Cons.prems(6) a have kj: "k \<noteq> j" by auto
    show ?thesis
    proof (cases "k < j")
      case True
      with k j have "subtree (k # s) (remove_kid j t) = Some x"
        by (simp add: t nth_append)
      with \<open>m' = []\<close> show ?thesis by auto
    next
      case False
      with kj have "j < k" by simp
      from nth_remove_after[OF this k(1)] this k
      have "subtree ((k - 1) # s) (remove_kid j t) = Some x"
        by (simp add: t)
      with \<open>m' = []\<close> show ?thesis by auto
    qed
  next
    case False
    then have bl: "butlast (j # m') = j # butlast m'" "last (j # m') = last m'" by simp_all
    show ?thesis
    proof (cases "k = j")
      case kj: False
      from subtree_other_kid[OF this, of s "butlast m'" "remove_kid (last m')" t] Cons.prems(1)
      have "subtree a (modify (j # butlast m') (remove_kid (last m')) t) = Some x"
        unfolding a by (simp only:)
      with Cons.prems(2) bl show ?thesis by auto
    next
      case True
      with Cons.prems(5,6) a have ne: "take (length s) m' \<noteq> s" "take (length m') s \<noteq> m'" by simp_all
      then have "s \<noteq> []" by auto
      from Cons.IH[OF k(2)[unfolded True] this False j(2) ne] obtain a' where
        "a' \<noteq> []" "subtree a' (modify (butlast m') (remove_kid (last m')) (cs ! j)) = Some x" by blast
      with j(1) have "subtree (j # a') (modify (j # butlast m') (remove_kid (last m')) t) = Some x"
        by (simp add: t)
      with bl show ?thesis by auto
    qed
  qed
qed

lemma modify_cong:
  "subtree r t = Some x \<Longrightarrow> g x = g' x \<Longrightarrow> modify r g t = modify r g' t"
proof (induction r arbitrary: t)
  case Nil
  then show ?case by simp
next
  case (Cons i r)
  then show ?case by (cases t) (auto split: if_splits)
qed

lemma is_marker_tag: "is_marker y \<Longrightarrow> is_tag y \<and> named ''span'' y"
  by (cases y) (auto simp: is_marker_def named_class_def)

lemma is_div_tag: "is_div y \<Longrightarrow> is_tag y \<and> named ''div'' y"
  by (cases y) (auto simp: is_div_def)

lemma is_self_link_tag: "is_self_link y \<Longrightarrow> is_tag y \<and> named ''a'' y"
  by (cases y) (auto simp: is_self_link_def named_class_def)

lemma below_permalink:
  assumes "subtree rest (set_permalink i x) = Some y" "is_self_link x" "is_tag y"
  shows "rest = []"
proof (cases rest)
  case Nil
  then show ?thesis .
next
  case (Cons k s)
  from assms(2) obtain nm as cs where x: "x = Tag nm as cs" by (cases x) (auto dest: is_self_link_tag)
  with assms(1) Cons have "k = 0" "subtree s (NavStr PlainText ''Permalink'') = Some y"
    by (auto split: if_splits)
  with assms(3) show ?thesis by (cases s) auto
qed

lemma plain_insert_kid:
  "plain_markers t \<Longrightarrow> \<not> is_marker t \<Longrightarrow> plain_markers new \<Longrightarrow> plain_markers (insert_kid j new t)"
proof (cases t)
  case (NavStr k s)
  then show ?thesis by simp
next
  case (Tag nm as cs)
  assume a: "plain_markers t" "\<not> is_marker t" "plain_markers new"
  have "is_marker (Tag nm as (take j cs @ new # drop j cs)) = is_marker (Tag nm as cs)"
    by (rule head_predD) simp_all
  with a Tag show ?thesis by (auto dest: in_set_takeD in_set_dropD)
qed

lemma plain_new_anchor [simp]: "plain_markers new_anchor"
  by (simp add: new_anchor_def)

lemma plain_new_marker [simp]: "plain_markers new_marker"
  by (simp add: new_marker_def)

lemma plain_set_permalink: "is_self_link x \<Longrightarrow> plain_markers (set_permalink i x)"
  by (cases x) (auto simp: is_marker_def named_class_def dest: is_self_link_tag)

lemma is_tag_set_permalink [simp]: "is_tag (set_permalink i x) = is_tag x"
  by (cases x) auto

lemma is_tag_insert_kid [simp]: "is_tag (insert_kid j new x) = is_tag x"
  by (cases x) auto

lemma named_unique: "named nm y \<Longrightarrow> named nm' y \<Longrightarrow> nm = nm'"
  by (cases y) auto

lemma not_div_and_link: "is_div y \<Longrightarrow> is_self_link y \<Longrightarrow> False"
  using named_unique[of "''div''" y "''a''"] is_div_tag[of y] is_self_link_tag[of y] by simp

lemma not_marker_and_link: "is_marker y \<Longrightarrow> is_self_link y \<Longrightarrow> False"
  using named_unique[of "''span''" y "''a''"] is_marker_tag[of y] is_self_link_tag[of y] by simp

lemma ensure_anchor_plain:
  assumes "ensure_anchor panel = Inr (p1, a, mv1)" "plain_markers panel"
  shows "plain_markers p1"
proof (cases "find_first is_self_link panel")
  case (Some a')
  with assms show ?thesis by (auto simp: ensure_anchor_def)
next
  case None
  with assms obtain d where d: "find_first is_div panel = Some d"
    "p1 = modify d (insert_kid 0 new_anchor) panel"
    by (auto simp: ensure_anchor_def split: option.splits)
  from find_first_Some[OF d(1)] obtain dv where dv: "subtree d panel = Some dv" "is_div dv" by blast
  from dv(2) have nm: "\<not> is_marker dv"
    using named_unique[of "''div''" dv "''span''"] is_div_tag[of dv] is_marker_tag[of dv] by auto
  from plain_subtree[OF assms(2) dv(1)] nm have "plain_markers (insert_kid 0 new_anchor dv)"
    by (intro plain_insert_kid) simp_all
  with assms(2) dv(1) show ?thesis unfolding d(2) by (intro plain_modify) simp_all
qed

lemma subtree_below:
  assumes "take (length a) r = a" "subtree a t = Some x" "subtree r t = Some y"
  obtains rest where "r = a @ rest" "subtree rest x = Some y"
proof -
  from assms(1) obtain rest where rest: "r = a @ rest" by (metis append_take_drop_id)
  from assms(3)[unfolded rest] assms(2) have "subtree rest x = Some y"
    by (simp add: subtree_append)
  with rest that show ?thesis by blast
qed

lemma singleton_list: "length xs \<le> 1 \<Longrightarrow> a \<in> set xs \<Longrightarrow> xs = [a]"
  by (cases xs) auto

lemma anchor_after:
  assumes r: "rewrite_panel dm panel = Inr out" and m: "panel_suffix panel = Inr (Some sfx)"
    and one: "length (find_all is_self_link panel) \<le> 1" and pl: "plain_markers panel"
  shows "\<exists>a' x. find_all is_self_link (tree out) = [a'] \<and> is_self_link x
           \<and> subtree a' (tree out) = Some (set_permalink (dfn_id_of sfx) x)"
proof -
  from rewrite_panel_matched[OF r m] obtain p1 a mv1 x ex mv3 where
    h: "ensure_anchor panel = Inr (p1, a, mv1)" "subtree a p1 = Some x" "is_self_link x" "a \<noteq> []"
    "sync_marker ex a (modify a (set_permalink (dfn_id_of sfx)) p1) = Inr (tree out, mv3)"
    by metis
  let ?i = "dfn_id_of sfx"
  let ?p2 = "modify a (set_permalink ?i) p1"
  let ?x = "set_permalink ?i x"
  have hq: "head_pred is_self_link" by simp
  have sx: "is_self_link ?x" using h(3) by (rule set_permalink_self_link)
  have tx: "is_tag ?x" using is_self_link_tag[OF sx] by blast
  have s2: "subtree a ?p2 = Some ?x" using h(2) by (rule subtree_modify_same)
  have pl1: "plain_markers p1" using h(1) pl by (rule ensure_anchor_plain)
  have pl2: "plain_markers ?p2"
    using pl1 h(2) plain_set_permalink[OF h(3)] by (intro plain_modify) simp_all
  \<comment> \<open>the number of anchors\<close>
  have h1: "head p1 = head panel" by (rule ensure_anchor_ok(3)[OF h(1)])
  have l1: "length (find_all is_self_link p1) \<le> 1"
  proof (cases "find_first is_self_link panel")
    case None
    then have "length (find_all is_self_link panel) = 0" by (simp add: find_first_None)
    moreover from ensure_anchor_ok(4)[OF h(1) hq] None
    have "cnt is_self_link p1 + 0 = cnt is_self_link panel + 1" by simp
    from count_below[OF hq h1 this] have
      "length (find_all is_self_link p1) = length (find_all is_self_link panel) + 1" by simp
    ultimately show ?thesis by simp
  next
    case (Some a0)
    from ensure_anchor_ok(4)[OF h(1) hq] Some
    have "cnt is_self_link p1 + 0 = cnt is_self_link panel + 0" by simp
    from count_below[OF hq h1 this] one show ?thesis by simp
  qed
  have h2: "head ?p2 = head p1" using h(4) by (simp add: head_modify)
  have "1 \<le> cnt is_self_link x" using h(3) by (cases x) auto
  then obtain k where k: "cnt is_self_link x = 1 + k" by (metis le_Suc_ex)
  from after_permalink(2)[OF h(2,4) hq, of ?i] cnt_set_permalink_self[OF h(3), of ?i] k
  have "cnt is_self_link ?p2 + k = cnt is_self_link p1 + 0" by simp
  from count_below[OF hq h2 this] l1 have l2: "length (find_all is_self_link ?p2) \<le> 1" by simp
  have nm: "cnt is_self_link new_marker = 0"
    by (rule cnt_new_marker[of "''a''"]) simp_all
  have l3: "length (find_all is_self_link (tree out)) \<le> 1"
    and ex': "\<exists>a'. a' \<noteq> [] \<and> subtree a' (tree out) = Some ?x"
  proof -
    consider (keep) "ex \<longleftrightarrow> find_first is_marker ?p2 \<noteq> None"
      | (create) "ex" "find_first is_marker ?p2 = None"
      | (remove) mk where "\<not> ex" "find_first is_marker ?p2 = Some mk"
      by (cases ex; cases "find_first is_marker ?p2") auto
    then have "length (find_all is_self_link (tree out)) \<le> 1
        \<and> (\<exists>a'. a' \<noteq> [] \<and> subtree a' (tree out) = Some ?x)"
    proof cases
      case keep
      from sync_marker_keep[OF h(5) keep] l2 s2 h(4) show ?thesis by auto
    next
      case create
      from sync_marker_create[OF h(5) create h(4) s2 hq] nm
      have "head (tree out) = head ?p2" "cnt is_self_link (tree out) + 0 = cnt is_self_link ?p2 + 0"
        by simp_all
      from count_below[OF hq this] l2 have l: "length (find_all is_self_link (tree out)) \<le> 1"
        by simp
      from subtree_parent[OF h(4) s2] obtain par where
        par: "subtree (butlast a) ?p2 = Some par" by blast
      have nb: "take (length a) (butlast a) \<noteq> a"
      proof
        assume e: "take (length a) (butlast a) = a"
        have "length (take (length a) (butlast a)) < length a" using h(4) by simp
        with e show False by simp
      qed
      have "\<exists>a'. a' \<noteq> [] \<and> subtree a' (tree out) = Some ?x"
      proof (cases "case next_sibling a ?p2 of Some s \<Rightarrow> truthy_node s | None \<Rightarrow> False")
        case True
        with h(5) create have "tree out = modify (butlast a) (insert_kid (Suc (last a)) new_marker) ?p2"
          by (simp add: sync_marker_def)
        with keeps_after_insert[OF s2 h(4) par nb] show ?thesis by simp
      next
        case False
        with h(5) create obtain d where d: "find_first is_div ?p2 = Some d"
          "tree out = modify d (\<lambda>n. insert_kid (length (contents n)) new_marker n) ?p2"
          by (auto simp: sync_marker_def append_to_div_def split: option.splits)
        from find_first_Some[OF d(1)] obtain dv where dv: "subtree d ?p2 = Some dv" "is_div dv"
          by blast
        have o: "tree out = modify d (insert_kid (length (contents dv)) new_marker) ?p2"
          unfolding d(2) using dv(1) by (rule modify_cong) simp
        have "take (length a) d \<noteq> a"
        proof
          assume "take (length a) d = a"
          from subtree_below[OF this s2 dv(1)] obtain rest where
            sd: "subtree rest ?x = Some dv" by blast
          from below_permalink[OF sd h(3)] dv(2) have "rest = []"
            by (simp add: is_div_tag)
          with sd have "dv = ?x" by simp
          with dv(2) sx show False by (auto dest: not_div_and_link)
        qed
        from keeps_after_insert[OF s2 h(4) dv(1) this] o show ?thesis by simp
      qed
      with l show ?thesis by simp
    next
      case remove
      from sync_marker_remove[OF h(5) remove hq] obtain y where
        y: "head (tree out) = head ?p2" "subtree mk ?p2 = Some y" "is_marker y"
        "cnt is_self_link (tree out) + cnt is_self_link y = cnt is_self_link ?p2"
        "tree out = modify (butlast mk) (remove_kid (last mk)) ?p2" by blast
      from count_below[OF hq y(1), of "cnt is_self_link y" 0] y(4) l2
      have l: "length (find_all is_self_link (tree out)) \<le> 1" by simp
      from find_first_Some[OF remove(2)] have mne: "mk \<noteq> []" by simp
      have n1: "take (length a) mk \<noteq> a"
      proof
        assume "take (length a) mk = a"
        from subtree_below[OF this s2 y(2)] obtain rest where
          sd: "subtree rest ?x = Some y" by blast
        from below_permalink[OF sd h(3)] y(3) have "rest = []"
          by (simp add: is_marker_tag)
        with sd have "y = ?x" by simp
        with y(3) sx show False by (auto dest: not_marker_and_link)
      qed
      have n2: "take (length mk) a \<noteq> mk"
      proof
        assume "take (length mk) a = mk"
        from subtree_below[OF this y(2) s2] obtain rest where
          sd: "subtree rest y = Some ?x" by blast
        show False
        proof (cases rest)
          case Nil
          with sd have "y = ?x" by simp
          with y(3) sx show False by (auto dest: not_marker_and_link)
        next
          case (Cons j s)
          from plain_marker_kids[OF plain_subtree[OF pl2 y(2)] y(3) sd[unfolded Cons]] tx
          show False by simp
        qed
      qed
      from keeps_after_remove[OF s2 h(4) mne y(2) n1 n2] y(5) l show ?thesis by simp
    qed
    then show "length (find_all is_self_link (tree out)) \<le> 1"
      and "\<exists>a'. a' \<noteq> [] \<and> subtree a' (tree out) = Some ?x" by simp_all
  qed
  from ex' obtain a' where a': "a' \<noteq> []" "subtree a' (tree out) = Some ?x" by blast
  with sx have "a' \<in> set (find_all is_self_link (tree out))" by (auto simp: find_all_iff)
  from singleton_list[OF l3 this] a' h(3) show ?thesis by blast
qed

subsection \<open>The loop on panels that are apart\<close>

lemma apart_sym: "apart r s \<Longrightarrow> apart s r"
  by (simp add: apart_def)

lemma apart_Cons: "apart (i # r) (k # s) \<longleftrightarrow> k \<noteq> i \<or> apart r s"
  by (auto simp: apart_def)

lemma apart_Nil [simp]: "\<not> apart [] s" "\<not> apart r []"
  by (simp_all add: apart_def)

lemma subtree_apart:
  "apart r s \<Longrightarrow> subtree s (modify r g t) = subtree s t"
proof (induction r arbitrary: s t)
  case Nil
  then show ?case by simp
next
  case (Cons i r)
  then obtain k s' where s: "s = k # s'" by (cases s) auto
  show ?case
  proof (cases "k = i")
    case False
    then show ?thesis unfolding s by (rule subtree_other_kid)
  next
    case True
    with Cons.prems s have "apart r s'" by (simp add: apart_Cons)
    from Cons.IH[OF this] show ?thesis
      by (cases t) (auto simp: s True)
  qed
qed

lemma relocate_apart:
  "apart r s \<Longrightarrow> relocate 0 r n mv (Live 0 s) = Live 0 s"
  by (simp add: apart_def)

lemma paths_from_append:
  "paths_from p k (xs @ ys) = paths_from p k xs @ paths_from p (k + length xs) ys"
  by (induction p k xs rule: paths_from.induct) simp_all

lemma paths_from_single_cong:
  assumes "p c' = p c" "find_all p c' = find_all p c"
  shows "paths_from p k [c'] = paths_from p k [c]"
  using assms by (simp add: paths_from_Cons find_all_def)

lemma paths_from_split:
  "paths_from p k (c # cs) = paths_from p k [c] @ paths_from p (Suc k) cs"
  by (simp add: paths_from_Cons)

lemma paths_from_around:
  assumes "i < length cs"
  shows "paths_from p k (take i cs @ c # drop (Suc i) cs)
      = paths_from p k (take i cs) @ paths_from p (k + i) [c]
        @ paths_from p (Suc (k + i)) (drop (Suc i) cs)"
proof -
  have "paths_from p k (take i cs @ c # drop (Suc i) cs)
      = paths_from p k (take i cs) @ paths_from p (k + i) (c # drop (Suc i) cs)"
    using assms by (simp add: paths_from_append min_def)
  also have "paths_from p (k + i) (c # drop (Suc i) cs)
      = paths_from p (k + i) [c] @ paths_from p (Suc (k + i)) (drop (Suc i) cs)"
    by (rule paths_from_split)
  finally show ?thesis .
qed

lemma paths_from_update:
  assumes "i < length cs" "p c' = p (cs ! i)" "find_all p c' = find_all p (cs ! i)"
  shows "paths_from p k (cs[i := c']) = paths_from p k cs"
proof -
  have u: "cs[i := c'] = take i cs @ c' # drop (Suc i) cs"
    using assms(1) by (simp add: upd_conv_take_nth_drop)
  have v: "take i cs @ cs ! i # drop (Suc i) cs = cs"
    using assms(1) by (simp add: id_take_nth_drop[symmetric])
  have "paths_from p k (cs[i := c']) = paths_from p k (take i cs @ c' # drop (Suc i) cs)"
    by (simp only: u)
  also have "\<dots> = paths_from p k (take i cs) @ paths_from p (k + i) [c']
        @ paths_from p (Suc (k + i)) (drop (Suc i) cs)"
    using assms(1) by (rule paths_from_around)
  also have "paths_from p (k + i) [c'] = paths_from p (k + i) [cs ! i]"
    using assms(2,3) by (rule paths_from_single_cong)
  also have "paths_from p k (take i cs) @ paths_from p (k + i) [cs ! i]
        @ paths_from p (Suc (k + i)) (drop (Suc i) cs)
      = paths_from p k (take i cs @ cs ! i # drop (Suc i) cs)"
    using assms(1) by (rule paths_from_around[symmetric])
  also have "\<dots> = paths_from p k cs" by (simp only: v)
  finally show ?thesis .
qed

lemma find_all_replace:
  "subtree r t = Some x \<Longrightarrow> head_pred q \<Longrightarrow> head x' = head x \<Longrightarrow>
   find_all q x' = find_all q x \<Longrightarrow> find_all q (modify r (\<lambda>_. x') t) = find_all q t"
proof (induction r arbitrary: t)
  case Nil
  then show ?case by simp
next
  case (Cons i r)
  from Cons.prems(1) obtain nm as cs where t: "t = Tag nm as cs" by (cases t) auto
  with Cons.prems have i: "i < length cs" and s: "subtree r (cs ! i) = Some x"
    by (auto split: if_splits)
  let ?c = "modify r (\<lambda>_. x') (cs ! i)"
  from Cons.IH[OF s Cons.prems(2,3,4)] have f: "find_all q ?c = find_all q (cs ! i)" .
  have "head ?c = head (cs ! i)" using s by (rule head_modify_gen) (simp add: Cons.prems(3))
  with Cons.prems(2) have "q ?c = q (cs ! i)" by (rule head_predD)
  from paths_from_update[OF i this f] show ?case by (simp add: t find_all_def)
qed

lemma rewrite_panel_no_new:
  assumes r: "rewrite_panel dm panel = Inr out" and hq: "head_pred q" and o: "only nm q"
    and n: "nm \<noteq> ''a''" "nm \<noteq> ''span''" and e: "find_all q panel = []"
  shows "find_all q (tree out) = []"
proof (cases "panel_suffix panel")
  case (Inl e)
  with r show ?thesis by (simp add: rewrite_panel_def)
next
  case (Inr so)
  show ?thesis
  proof (cases so)
    case None
    with Inr r e show ?thesis by (auto simp: rewrite_panel_def)
  next
    case (Some sfx)
    from rewrite_panel_matched[OF r Inr[unfolded Some]] obtain p1 a mv1 x ex mv3 where
      h: "ensure_anchor panel = Inr (p1, a, mv1)" "subtree a p1 = Some x" "is_self_link x" "a \<noteq> []"
      "sync_marker ex a (modify a (set_permalink (dfn_id_of sfx)) p1) = Inr (tree out, mv3)"
      by metis
    let ?i = "dfn_id_of sfx"
    let ?p2 = "modify a (set_permalink ?i) p1"
    have s2: "subtree a ?p2 = Some (set_permalink ?i x)" using h(2) by (rule subtree_modify_same)
    have c1: "cnt q p1 = cnt q panel"
      using ensure_anchor_ok(4)[OF h(1) hq] cnt_new_anchor[OF o n(1)] by simp
    have "cnt q (set_permalink ?i x) = 0"
      using o n(1) is_self_link_named[OF h(3)] by (rule cnt_set_permalink_other)
    with after_permalink(2)[OF h(2,4) hq, of ?i] c1
    have c2: "cnt q ?p2 \<le> cnt q panel" by simp
    have c3: "cnt q (tree out) \<le> cnt q ?p2"
    proof -
      consider (keep) "ex \<longleftrightarrow> find_first is_marker ?p2 \<noteq> None"
        | (create) "ex" "find_first is_marker ?p2 = None"
        | (remove) mk where "\<not> ex" "find_first is_marker ?p2 = Some mk"
        by (cases ex; cases "find_first is_marker ?p2") auto
      then show ?thesis
      proof cases
        case keep
        from sync_marker_keep[OF h(5) keep] show ?thesis by simp
      next
        case create
        from sync_marker_create(2)[OF h(5) create h(4) s2 hq] cnt_new_marker[OF o n(2)]
        show ?thesis by simp
      next
        case remove
        from sync_marker_remove(2)[OF h(5) remove hq] show ?thesis by auto
      qed
    qed
    from c2 c3 obtain k where "cnt q (tree out) + k = cnt q panel + 0"
      by (metis add.right_neutral le_Suc_ex le_trans)
    from count_below[OF hq rewrite_panel_head[OF r] this] e show ?thesis by simp
  qed
qed

lemma index_dfns_spec:
  "index_dfns soup rs m = Inr m' \<Longrightarrow>
   m' s = (if s \<noteq> [] \<and> (\<exists>r \<in> set rs. id_at soup r = Some (Str s))
           then Some (Live 0 (last (filter (\<lambda>r. id_at soup r = Some (Str s)) rs)))
           else m s)"
proof (induction rs arbitrary: m)
  case Nil
  then show ?case by simp
next
  case (Cons r rs)
  show ?case
  proof (cases "id_at soup r")
    case None
    with Cons.prems have "index_dfns soup rs m = Inr m'" by simp
    from Cons.IH[OF this] None show ?thesis by simp
  next
    case (Some v)
    show ?thesis
    proof (cases v)
      case (Toks ts)
      with Some Cons.prems have "index_dfns soup rs m = Inr m'" by (simp split: if_splits)
      from Cons.IH[OF this] Some Toks show ?thesis by simp
    next
      case (Str s')
      show ?thesis
      proof (cases "s' = []")
        case True
        with Some Str Cons.prems have "index_dfns soup rs m = Inr m'" by simp
        from Cons.IH[OF this] Some Str True show ?thesis by auto
      next
        case False
        with Some Str Cons.prems have "index_dfns soup rs (m(s' \<mapsto> Live 0 r)) = Inr m'" by simp
        from Cons.IH[OF this] Some Str False show ?thesis
          by (auto simp: filter_empty_conv)
      qed
    qed
  qed
qed

lemma dfn_index_values:
  assumes "dfn_index soup = Inr dmr" "dmr k = Some ref"
  shows "\<exists>s \<in> set (find_all is_dfn soup). ref = Live 0 s"
proof -
  let ?f = "filter (\<lambda>r. id_at soup r = Some (Str k)) (find_all is_dfn soup)"
  from index_dfns_spec[OF assms(1)[unfolded dfn_index_def], of k] assms(2)
  have ne: "?f \<noteq> []" and ref: "ref = Live 0 (last ?f)"
    by (auto simp: filter_empty_conv split: if_splits)
  from ne have "last ?f \<in> set ?f" by (rule last_in_set)
  then have "last ?f \<in> set (find_all is_dfn soup)" by simp
  with ref show ?thesis by blast
qed

subsection \<open>References follow the edits\<close>

lemma not_below_cases: "\<not> below q r \<Longrightarrow> take (length r) q = r \<or> apart q r"
proof -
  assume nb: "\<not> below q r"
  show ?thesis
  proof (cases "take (length r) q = r")
    case True
    then show ?thesis by simp
  next
    case False
    have "take (length q) r \<noteq> q"
    proof
      assume e: "take (length q) r = q"
      then have "length (take (length q) r) = length q" by simp
      then have "length q \<le> length r" by simp
      moreover from nb e have "\<not> length q < length r" unfolding below_def by blast
      ultimately have "length q = length r" by simp
      then have "take (length q) r = r" by simp
      with e have "q = r" by (simp only:)
      with False show False by simp
    qed
    with False show ?thesis by (simp add: apart_def)
  qed
qed

lemma belowE:
  assumes "below q r"
  obtains k rest where "r = q @ k # rest" "r ! length q = k" "drop (Suc (length q)) r = rest"
proof -
  from assms have l: "length q < length r" and t: "take (length q) r = q" by (simp_all add: below_def)
  have "take (length q) r @ drop (length q) r = r" by (rule append_take_drop_id)
  moreover have "drop (length q) r = r ! length q # drop (Suc (length q)) r"
    using l by (simp add: Cons_nth_drop_Suc)
  ultimately have "q @ r ! length q # drop (Suc (length q)) r = r" by (simp only: t)
  then have "r = q @ r ! length q # drop (Suc (length q)) r" by (rule sym)
  then show ?thesis using that by blast
qed

lemma subtree_modify_prefix:
  "subtree s t = Some d \<Longrightarrow> subtree s (modify (s @ q) g t) = Some (modify q g d)"
proof (induction s arbitrary: t)
  case Nil
  then show ?case by simp
next
  case (Cons i s)
  then show ?case by (cases t) (auto split: if_splits)
qed

lemma subtree_above:
  assumes "take (length s) r = s" "subtree s t = Some d"
    "s \<noteq> r \<or> head (g d) = head d"
  shows "\<exists>d'. subtree s (modify r g t) = Some d' \<and> head d' = head d"
proof -
  from assms(1) obtain q where r: "r = s @ q" by (metis append_take_drop_id)
  from subtree_modify_prefix[OF assms(2), of q g]
  have s: "subtree s (modify r g t) = Some (modify q g d)" by (simp only: r)
  have "head (modify q g d) = head d"
  proof (cases "q = []")
    case True
    with r assms(3) show ?thesis by simp
  next
    case False
    then show ?thesis by (rule head_modify)
  qed
  with s show ?thesis by simp
qed

lemma subtree_after_insert:
  assumes "subtree \<rho> t = Some d" "subtree q t = Some par"
  shows "\<exists>d'. subtree (after_insert q j \<rho>) (modify q (insert_kid j new) t) = Some d'
           \<and> head d' = head d \<and> (take (length \<rho>) q \<noteq> \<rho> \<longrightarrow> d' = d)"
proof (cases "below q \<rho>")
  case True
  from belowE[OF True] obtain k rest where
    k: "\<rho> = q @ k # rest" "\<rho> ! length q = k" "drop (Suc (length q)) \<rho> = rest" by blast
  from assms k(1) have sk: "subtree (k # rest) par = Some d" by (simp add: subtree_append)
  then obtain nm as cs where par: "par = Tag nm as cs" by (cases par) auto
  with sk have kl: "k < length cs" and sr: "subtree rest (cs ! k) = Some d" by (auto split: if_splits)
  let ?cs = "take j cs @ new # drop j cs"
  from subtree_modify_same[OF assms(2), of "insert_kid j new"] par
  have sq: "subtree q (modify q (insert_kid j new) t) = Some (Tag nm as ?cs)" by simp
  have "subtree (after_insert q j \<rho>) (modify q (insert_kid j new) t) = Some d"
  proof (cases "j \<le> k")
    case le: True
    then have ai: "after_insert q j \<rho> = q @ Suc k # rest"
      using True k by (simp add: after_insert_def)
    from le kl have "Suc k < length ?cs" by simp
    with nth_insert_after[OF le kl, of new] sr sq show ?thesis
      by (simp add: ai subtree_append)
  next
    case gt: False
    then have ai: "after_insert q j \<rho> = q @ k # rest"
      using True k by (simp add: after_insert_def)
    from gt kl have "k < length ?cs" "?cs ! k = cs ! k" by (simp_all add: nth_append)
    with sr sq show ?thesis by (simp add: ai subtree_append)
  qed
  then show ?thesis by simp
next
  case False
  then have ai: "after_insert q j \<rho> = \<rho>" by (simp add: after_insert_def)
  from not_below_cases[OF False] show ?thesis
  proof
    assume p: "take (length \<rho>) q = \<rho>"
    from subtree_above[OF p assms(1), of "insert_kid j new"] show ?thesis
      by (simp add: ai p)
  next
    assume "apart q \<rho>"
    from subtree_apart[OF this, of "insert_kid j new" t] assms(1) show ?thesis
      by (simp add: ai)
  qed
qed

lemma subtree_after_remove:
  assumes "subtree \<rho> t = Some d" "subtree q t = Some par"
  shows "case after_remove q j \<rho> of
           Here \<rho>' \<Rightarrow> (\<exists>d'. subtree \<rho>' (modify q (remove_kid j) t) = Some d'
                        \<and> head d' = head d \<and> (take (length \<rho>) q \<noteq> \<rho> \<longrightarrow> d' = d))
         | Away k s \<Rightarrow> False
         | Lost \<Rightarrow> True"
proof (cases "below q \<rho>")
  case True
  from belowE[OF True] obtain k rest where
    k: "\<rho> = q @ k # rest" "\<rho> ! length q = k" "drop (Suc (length q)) \<rho> = rest" by blast
  from assms k(1) have sk: "subtree (k # rest) par = Some d" by (simp add: subtree_append)
  then obtain nm as cs where par: "par = Tag nm as cs" by (cases par) auto
  with sk have kl: "k < length cs" and sr: "subtree rest (cs ! k) = Some d" by (auto split: if_splits)
  let ?cs = "take j cs @ drop (Suc j) cs"
  from subtree_modify_same[OF assms(2), of "remove_kid j"] par
  have sq: "subtree q (modify q (remove_kid j) t) = Some (Tag nm as ?cs)" by simp
  consider "k = j" | "j < k" | "k < j" by arith
  then show ?thesis
  proof cases
    case 1
    then show ?thesis using True k by (simp add: after_remove_def)
  next
    case 2
    then have ar: "after_remove q j \<rho> = Here (q @ (k - 1) # rest)"
      using True k by (simp add: after_remove_def)
    from 2 kl have "k - 1 < length ?cs" by simp
    with nth_remove_after[OF 2 kl] sr sq
    have "subtree (q @ (k - 1) # rest) (modify q (remove_kid j) t) = Some d"
      by (simp add: subtree_append)
    then show ?thesis by (simp add: ar)
  next
    case 3
    then have ar: "after_remove q j \<rho> = Here (q @ k # rest)"
      using True k by (simp add: after_remove_def)
    from 3 kl have "k < length ?cs" "?cs ! k = cs ! k" by (simp_all add: nth_append)
    with sr sq have "subtree (q @ k # rest) (modify q (remove_kid j) t) = Some d"
      by (simp add: subtree_append)
    then show ?thesis by (simp add: ar)
  qed
next
  case False
  then have ar: "after_remove q j \<rho> = Here \<rho>" by (simp add: after_remove_def)
  from not_below_cases[OF False] show ?thesis
  proof
    assume p: "take (length \<rho>) q = \<rho>"
    from subtree_above[OF p assms(1), of "remove_kid j"] show ?thesis
      by (simp add: ar p)
  next
    assume "apart q \<rho>"
    from subtree_apart[OF this, of "remove_kid j" t] assms(1) show ?thesis
      by (simp add: ar)
  qed
qed

lemma subtree_after_clear:
  assumes "subtree \<rho> t = Some d" "subtree a t = Some x" "\<rho> \<noteq> a"
  shows "case after_clear a \<rho> of
           Here \<rho>' \<Rightarrow> \<rho>' = \<rho> \<and> (\<exists>d'. subtree \<rho> (modify a g t) = Some d'
                        \<and> head d' = head d \<and> (take (length \<rho>) a \<noteq> \<rho> \<longrightarrow> d' = d))
         | Away k s \<Rightarrow> k < length (contents x) \<and> subtree s (contents x ! k) = Some d
         | Lost \<Rightarrow> False"
proof (cases "below a \<rho>")
  case True
  from belowE[OF True] obtain k rest where
    k: "\<rho> = a @ k # rest" "\<rho> ! length a = k" "drop (Suc (length a)) \<rho> = rest" by blast
  from assms k(1) have sk: "subtree (k # rest) x = Some d" by (simp add: subtree_append)
  then have "k < length (contents x)" "subtree rest (contents x ! k) = Some d"
    by (auto split: if_splits)
  then show ?thesis using True k by (simp add: after_clear_def)
next
  case False
  then have ac: "after_clear a \<rho> = Here \<rho>" by (simp add: after_clear_def)
  from not_below_cases[OF False] show ?thesis
  proof
    assume p: "take (length \<rho>) a = \<rho>"
    from subtree_above[OF p assms(1), of g] assms(3) show ?thesis
      by (simp add: ac p)
  next
    assume "apart a \<rho>"
    from subtree_apart[OF this, of g t] assms(1) show ?thesis
      by (simp add: ac)
  qed
qed


lemma rewrite_panel_parts:
  assumes "rewrite_panel dm panel = Inr out" "panel_suffix panel = Inr (Some sfx)"
  obtains p1 a mv1 x ex mv3 where
    "ensure_anchor panel = Inr (p1, a, mv1)" "subtree a p1 = Some x" "is_self_link x" "a \<noteq> []"
    "export_status (resolve_dfn dm sfx) = Inr ex"
    "sync_marker ex a (modify a (set_permalink (dfn_id_of sfx)) p1) = Inr (tree out, mv3)"
    "detached out = contents x"
    "moved out = (\<lambda>r. case after_clear a (mv1 r) of Here r' \<Rightarrow> mv3 r' | x \<Rightarrow> x)"
proof -
  from assms obtain p1 a mv1 where e: "ensure_anchor panel = Inr (p1, a, mv1)"
    by (auto simp: rewrite_panel_def Let_def split: sum.splits prod.splits)
  from ensure_anchor_ok(1,2)[OF e] obtain x where x: "a \<noteq> []" "subtree a p1 = Some x" "is_self_link x"
    by blast
  from assms e obtain ex where ex: "export_status (resolve_dfn dm sfx) = Inr ex"
    by (auto simp: rewrite_panel_def Let_def split: sum.splits prod.splits)
  from assms e ex x obtain mv3 where
    "sync_marker ex a (modify a (set_permalink (dfn_id_of sfx)) p1) = Inr (tree out, mv3)"
    "detached out = contents x"
    "moved out = (\<lambda>r. case after_clear a (mv1 r) of Here r' \<Rightarrow> mv3 r' | x \<Rightarrow> x)"
    by (auto simp: rewrite_panel_def Let_def split: sum.splits prod.splits)
  with e x ex that show ?thesis by blast
qed

lemma ensure_anchor_moves:
  assumes "ensure_anchor panel = Inr (p1, a, mv1)" "subtree \<rho> panel = Some d"
  shows "\<exists>d1. subtree (mv1 \<rho>) p1 = Some d1 \<and> head d1 = head d"
proof (cases "find_first is_self_link panel")
  case (Some a')
  with assms show ?thesis by (auto simp: ensure_anchor_def)
next
  case None
  with assms(1) obtain dp where dp: "find_first is_div panel = Some dp"
    "p1 = modify dp (insert_kid 0 new_anchor) panel" "mv1 = after_insert dp 0"
    by (auto simp: ensure_anchor_def split: option.splits)
  from find_first_Some[OF dp(1)] obtain dv where dv: "subtree dp panel = Some dv" by blast
  from subtree_after_insert[OF assms(2) dv, of 0 new_anchor] show ?thesis
    unfolding dp(2,3) by blast
qed

lemma after_insert_end:
  assumes "subtree \<rho> t = Some d" "subtree q t = Some par"
  shows "after_insert q (length (contents par)) \<rho> = \<rho>"
proof (cases "below q \<rho>")
  case False
  then show ?thesis by (simp add: after_insert_def)
next
  case True
  from belowE[OF True] obtain k rest where
    k: "\<rho> = q @ k # rest" "\<rho> ! length q = k" by blast
  from assms k(1) have "subtree (k # rest) par = Some d" by (simp add: subtree_append)
  then have "k < length (contents par)" by (auto split: if_splits)
  with k(2) show ?thesis by (simp add: after_insert_def)
qed

lemma sync_marker_moves:
  assumes s: "sync_marker ex a p2 = Inr (p3, mv3)" and a: "a \<noteq> []" "subtree a p2 = Some x"
    and d: "subtree \<rho> p2 = Some d"
  shows "case mv3 \<rho> of
           Here \<rho>' \<Rightarrow> (\<exists>d'. subtree \<rho>' p3 = Some d' \<and> head d' = head d)
         | Away k s \<Rightarrow> False
         | Lost \<Rightarrow> True"
proof -
  consider (keep) "ex \<longleftrightarrow> find_first is_marker p2 \<noteq> None"
    | (create) "ex" "find_first is_marker p2 = None"
    | (remove) mk where "\<not> ex" "find_first is_marker p2 = Some mk"
    by (cases ex; cases "find_first is_marker p2") auto
  then show ?thesis
  proof cases
    case keep
    with s have "p3 = p2" "mv3 = Here"
      by (auto simp: sync_marker_def split: option.splits if_splits)
    with d show ?thesis by simp
  next
    case create
    from subtree_parent[OF a] obtain par where
      par: "subtree (butlast a) p2 = Some par" by blast
    show ?thesis
    proof (cases "case next_sibling a p2 of Some s \<Rightarrow> truthy_node s | None \<Rightarrow> False")
      case True
      with s create have o: "p3 = modify (butlast a) (insert_kid (Suc (last a)) new_marker) p2"
        "mv3 = (\<lambda>r. Here (after_insert (butlast a) (Suc (last a)) r))"
        by (simp_all add: sync_marker_def)
      from subtree_after_insert[OF d par, of "Suc (last a)" new_marker] show ?thesis
        unfolding o by auto
    next
      case False
      with s create obtain dp where dp: "find_first is_div p2 = Some dp"
        "p3 = modify dp (\<lambda>n. insert_kid (length (contents n)) new_marker n) p2" "mv3 = Here"
        by (auto simp: sync_marker_def append_to_div_def split: option.splits)
      from find_first_Some[OF dp(1)] obtain dv where dv: "subtree dp p2 = Some dv" by blast
      have o: "p3 = modify dp (insert_kid (length (contents dv)) new_marker) p2"
        unfolding dp(2) using dv by (rule modify_cong) simp
      from subtree_after_insert[OF d dv, of "length (contents dv)" new_marker]
        after_insert_end[OF d dv]
      show ?thesis unfolding o dp(3) by auto
    qed
  next
    case remove
    with s have o: "p3 = modify (butlast mk) (remove_kid (last mk)) p2"
      "mv3 = after_remove (butlast mk) (last mk)"
      by (simp_all add: sync_marker_def)
    from find_first_Some[OF remove(2)] obtain y where y: "mk \<noteq> []" "subtree mk p2 = Some y" by blast
    from subtree_parent[OF y] obtain par where par: "subtree (butlast mk) p2 = Some par" by blast
    from subtree_after_remove[OF d par, of "last mk"] show ?thesis
      unfolding o by (auto split: lref.splits)
  qed
qed

lemma named_head: "head d' = head d \<Longrightarrow> named nm d' = named nm d"
  by (rule head_predD) simp_all

lemma rewrite_panel_moves:
  assumes r: "rewrite_panel dm panel = Inr out" and d: "subtree \<rho> panel = Some d"
    and n: "\<not> named ''a'' d"
  shows "case moved out \<rho> of
           Here \<rho>' \<Rightarrow> (\<exists>d'. subtree \<rho>' (tree out) = Some d' \<and> head d' = head d)
         | Away k s \<Rightarrow> k < length (detached out)
               \<and> (\<exists>d'. subtree s (detached out ! k) = Some d' \<and> head d' = head d)
         | Lost \<Rightarrow> True"
proof (cases "panel_suffix panel")
  case (Inl e)
  with r show ?thesis by (simp add: rewrite_panel_def)
next
  case (Inr so)
  show ?thesis
  proof (cases so)
    case None
    with Inr r d show ?thesis by (auto simp: rewrite_panel_def)
  next
    case (Some sfx)
    from rewrite_panel_parts[OF r Inr[unfolded Some]] obtain p1 a mv1 x ex mv3 where
      h: "ensure_anchor panel = Inr (p1, a, mv1)" "subtree a p1 = Some x" "is_self_link x" "a \<noteq> []"
      "sync_marker ex a (modify a (set_permalink (dfn_id_of sfx)) p1) = Inr (tree out, mv3)"
      "detached out = contents x"
      "moved out = (\<lambda>r. case after_clear a (mv1 r) of Here r' \<Rightarrow> mv3 r' | x \<Rightarrow> x)"
      by metis
    let ?p2 = "modify a (set_permalink (dfn_id_of sfx)) p1"
    from ensure_anchor_moves[OF h(1) d] obtain d1 where
      d1: "subtree (mv1 \<rho>) p1 = Some d1" "head d1 = head d" by blast
    from named_head[OF d1(2), of "''a''"] n have "\<not> named ''a'' d1" by simp
    with h(2,3) d1(1) have ne: "mv1 \<rho> \<noteq> a" by (auto dest: is_self_link_named)
    have s2: "subtree a ?p2 = Some (set_permalink (dfn_id_of sfx) x)"
      using h(2) by (rule subtree_modify_same)
    note c = subtree_after_clear[OF d1(1) h(2) ne, of "set_permalink (dfn_id_of sfx)"]
    show ?thesis
    proof (cases "after_clear a (mv1 \<rho>)")
      case (Away k s)
      with c h(6,7) d1(2) show ?thesis by simp
    next
      case Lost
      with c show ?thesis by simp
    next
      case (Here \<rho>1)
      with c obtain d2 where d2: "\<rho>1 = mv1 \<rho>" "subtree (mv1 \<rho>) ?p2 = Some d2" "head d2 = head d1"
        by auto
      from sync_marker_moves[OF h(5,4) s2 d2(2)] d2(3) d1(2) Here d2(1) h(7)
      show ?thesis by (auto split: lref.splits)
    qed
  qed
qed

lemma relocate_deref:
  assumes r: "rewrite_panel dm x = Inr out" and x: "subtree r t = Some x"
    and d: "deref (t # ds) ref = Some d" and n: "\<not> named ''a'' d"
  shows "case relocate 0 r (Suc (length ds)) (moved out) ref of
           Gone \<Rightarrow> True
         | Live j s \<Rightarrow> (\<exists>d'. deref (modify r (\<lambda>_. tree out) t # ds @ detached out) (Live j s) = Some d'
                          \<and> head d' = head d)"
proof (cases ref)
  case Gone
  then show ?thesis by simp
next
  case (Live j s)
  let ?t = "modify r (\<lambda>_. tree out) t"
  show ?thesis
  proof (cases "j = 0")
    case False
    with d Live have "j < Suc (length ds)" "subtree s ((t # ds) ! j) = Some d"
      by (auto split: if_splits)
    moreover from False this(1) have "(?t # ds @ detached out) ! j = (t # ds) ! j"
      by (cases j) (auto simp: nth_append)
    ultimately show ?thesis using False Live by simp
  next
    case True
    with d Live have st: "subtree s t = Some d" by simp
    show ?thesis
    proof (cases "take (length r) s = r")
      case below: True
      from subtree_below[OF below x st] obtain \<rho> where \<rho>: "s = r @ \<rho>" "subtree \<rho> x = Some d"
        by blast
      then have dr: "drop (length r) s = \<rho>" by simp
      have so: "subtree r ?t = Some (tree out)" using x by (rule subtree_modify_same)
      note m = rewrite_panel_moves[OF r \<rho>(2) n]
      show ?thesis
      proof (cases "moved out \<rho>")
        case (Here \<rho>')
        with m obtain d' where "subtree \<rho>' (tree out) = Some d'" "head d' = head d" by auto
        with so have "subtree (r @ \<rho>') ?t = Some d'" "head d' = head d"
          by (simp_all add: subtree_append)
        then show ?thesis using True Live below dr Here by simp
      next
        case (Away k q)
        with m obtain d' where "k < length (detached out)" "subtree q (detached out ! k) = Some d'"
          "head d' = head d" by auto
        then show ?thesis using True Live below dr Away by (simp add: nth_append)
      next
        case Lost
        then show ?thesis using True Live below dr by simp
      qed
    next
      case nb: False
      have "\<exists>d'. subtree s ?t = Some d' \<and> head d' = head d"
      proof (cases "take (length s) r = s")
        case True
        with nb have "s \<noteq> r" by auto
        with subtree_above[OF True st, of "\<lambda>_. tree out"] show ?thesis by simp
      next
        case False
        with nb have "apart r s" by (simp add: apart_def)
        from subtree_apart[OF this, of "\<lambda>_. tree out" t] st show ?thesis by simp
      qed
      then show ?thesis using True Live nb by simp
    qed
  qed
qed

lemma tracks_older:
  "tracks v0 dmr roots \<Longrightarrow> older v0 (\<lambda>k. map_option (deref roots) (dmr k))"
  unfolding tracks_def older_def
proof (intro allI)
  fix k
  assume a: "\<forall>k. case dmr k of None \<Rightarrow> v0 k = None | Some Gone \<Rightarrow> v0 k \<noteq> None
          | Some (Live j s) \<Rightarrow> (\<exists>d d0. deref roots (Live j s) = Some d \<and> v0 k = Some (Some d0)
                 \<and> head d = head d0 \<and> is_dfn d0)"
  show "case map_option (deref roots) (dmr k) of None \<Rightarrow> v0 k = None | Some None \<Rightarrow> v0 k \<noteq> None
          | Some (Some d) \<Rightarrow> (\<exists>d0. v0 k = Some (Some d0) \<and> head d = head d0)"
  proof (cases "dmr k")
    case None
    with a[rule_format, of k] show ?thesis by simp
  next
    case (Some ref)
    show ?thesis
    proof (cases ref)
      case Gone
      with Some a[rule_format, of k] show ?thesis by auto
    next
      case (Live j s)
      with Some a[rule_format, of k] show ?thesis by auto
    qed
  qed
qed

lemma tracks_step:
  assumes tr: "tracks v0 dmr (t # ds)" and r: "rewrite_panel dm x = Inr out"
    and x: "subtree r t = Some x"
  shows "tracks v0 (\<lambda>k. map_option (relocate 0 r (Suc (length ds)) (moved out)) (dmr k))
           (modify r (\<lambda>_. tree out) t # ds @ detached out)"
  unfolding tracks_def
proof (intro allI)
  fix k
  let ?mv = "relocate 0 r (Suc (length ds)) (moved out)"
  let ?roots = "modify r (\<lambda>_. tree out) t # ds @ detached out"
  note a = tr[unfolded tracks_def, rule_format, of k]
  show "case map_option ?mv (dmr k) of None \<Rightarrow> v0 k = None | Some Gone \<Rightarrow> v0 k \<noteq> None
          | Some (Live j s) \<Rightarrow> (\<exists>d d0. deref ?roots (Live j s) = Some d \<and> v0 k = Some (Some d0)
                 \<and> head d = head d0 \<and> is_dfn d0)"
  proof (cases "dmr k")
    case None
    with a show ?thesis by simp
  next
    case (Some ref)
    show ?thesis
    proof (cases ref)
      case Gone
      with Some a show ?thesis by simp
    next
      case (Live j s)
      with Some a obtain d d0 where d: "deref (t # ds) ref = Some d" "v0 k = Some (Some d0)"
        "head d = head d0" "is_dfn d0" by auto
      from named_head[OF d(3), of "''dfn''"] d(4) have "named ''dfn'' d" by (simp add: is_dfn_def)
      then have "\<not> named ''a'' d" by (auto dest: named_unique)
      from relocate_deref[OF r x d(1) this] d(2,3,4) Some show ?thesis
        by (cases "?mv ref") (auto simp del: deref.simps relocate.simps)
    qed
  qed
qed

lemma process_panels_steps:
  "pairwise_apart rs \<Longrightarrow> tracks v0 dmr (t # ds) \<Longrightarrow>
   process_panels dmr (map (Live 0) rs) (t # ds) = Inr roots' \<Longrightarrow>
   roots' \<noteq> [] \<and> steps v0 rs t (hd roots')"
proof (induction rs arbitrary: t ds dmr)
  case Nil
  then show ?case by (auto intro: steps_Nil)
next
  case (Cons r rs)
  let ?dm = "\<lambda>k. map_option (deref (t # ds)) (dmr k)"
  from Cons.prems(3) obtain x where x: "subtree r t = Some x"
    by (auto split: option.splits)
  with Cons.prems(3) obtain out where out: "rewrite_panel ?dm x = Inr out"
    by (auto split: sum.splits)
  let ?mv = "relocate 0 r (Suc (length ds)) (moved out)"
  let ?t = "modify r (\<lambda>_. tree out) t"
  from Cons.prems(1) have ap: "\<forall>s \<in> set rs. apart r s" and pa: "pairwise_apart rs" by simp_all
  have rs: "map ?mv (map (Live 0) rs) = map (Live 0) rs"
    using ap by (simp add: relocate_apart del: relocate.simps)
  have "process_panels dmr (map (Live 0) (r # rs)) (t # ds)
      = process_panels (\<lambda>k. map_option ?mv (dmr k)) (map ?mv (map (Live 0) rs))
          (?t # ds @ detached out)"
    using x out by (simp add: Let_def del: relocate.simps map_map)
  with Cons.prems(3) have pp: "process_panels (\<lambda>k. map_option ?mv (dmr k)) (map (Live 0) rs)
          (?t # ds @ detached out) = Inr roots'"
    by (simp only: rs)
  from Cons.IH[OF pa tracks_step[OF Cons.prems(2) out x] pp]
  have ih: "roots' \<noteq> []" "steps v0 rs ?t (hd roots')" by simp_all
  from steps_Cons[OF x tracks_older[OF Cons.prems(2)] out ih(2)] ih(1) show ?case by simp
qed

lemma steps_pointwise:
  "steps v0 rs t t' \<Longrightarrow> pairwise_apart rs \<Longrightarrow>
   (\<forall>r \<in> set rs. \<exists>x dm out. subtree r t = Some x \<and> older v0 dm \<and> rewrite_panel dm x = Inr out
        \<and> subtree r t' = Some (tree out))
   \<and> (\<forall>s. (\<forall>r \<in> set rs. apart r s) \<longrightarrow> subtree s t' = subtree s t)"
proof (induction rule: steps.induct)
  case (steps_Nil t)
  then show ?case by simp
next
  case (steps_Cons r t x dm out rs t')
  let ?t = "modify r (\<lambda>_. tree out) t"
  from steps_Cons.prems have ap: "\<forall>s \<in> set rs. apart r s" and pa: "pairwise_apart rs" by simp_all
  from steps_Cons.IH[OF pa] have
    ih1: "\<forall>r' \<in> set rs. \<exists>x dm out. subtree r' ?t = Some x \<and> older v0 dm \<and> rewrite_panel dm x = Inr out
        \<and> subtree r' t' = Some (tree out)"
    and ih2: "\<forall>s. (\<forall>r' \<in> set rs. apart r' s) \<longrightarrow> subtree s t' = subtree s ?t" by simp_all
  have "subtree r t' = subtree r ?t" using ih2 ap by (auto dest: apart_sym)
  also have "\<dots> = Some (tree out)" using steps_Cons.hyps(1) by (rule subtree_modify_same)
  finally have a: "subtree r t' = Some (tree out)" .
  have b: "\<exists>x dm out. subtree r' t = Some x \<and> older v0 dm \<and> rewrite_panel dm x = Inr out
        \<and> subtree r' t' = Some (tree out)" if "r' \<in> set rs" for r'
  proof -
    from ap that have e: "subtree r' ?t = subtree r' t" by (simp add: subtree_apart)
    from ih1 that obtain x' dm' out' where o: "subtree r' ?t = Some x'" "older v0 dm'"
      "rewrite_panel dm' x' = Inr out'" "subtree r' t' = Some (tree out')" by blast
    from o(1) e have "subtree r' t = Some x'" by simp
    with o(2,3,4) show ?thesis by blast
  qed
  have c: "subtree s t' = subtree s t" if "\<forall>r' \<in> set (r # rs). apart r' s" for s
  proof -
    from that ih2 have "subtree s t' = subtree s ?t" by simp
    also from that have "\<dots> = subtree s t" by (simp add: subtree_apart)
    finally show ?thesis .
  qed
  from a b c steps_Cons.hyps(1,2,3) show ?case by auto
qed

lemma tracks_initial:
  assumes "dfn_index soup = Inr dmr"
  shows "tracks (dfn_view soup) dmr [soup]"
  unfolding tracks_def
proof (intro allI)
  fix k
  show "case dmr k of None \<Rightarrow> dfn_view soup k = None | Some Gone \<Rightarrow> dfn_view soup k \<noteq> None
          | Some (Live j s) \<Rightarrow> (\<exists>d d0. deref [soup] (Live j s) = Some d
               \<and> dfn_view soup k = Some (Some d0) \<and> head d = head d0 \<and> is_dfn d0)"
  proof (cases "dmr k")
    case None
    with assms show ?thesis by (simp add: dfn_view_def)
  next
    case (Some ref)
    from dfn_index_values[OF assms Some] obtain s where
      s: "s \<in> set (find_all is_dfn soup)" "ref = Live 0 s" by blast
    from s(1) obtain d where "subtree s soup = Some d" "is_dfn d" by (auto simp: find_all_iff)
    with Some s(2) assms show ?thesis by (simp add: dfn_view_def)
  qed
qed

lemma transform_steps:
  assumes "transform soup = Inr soup'" "pairwise_apart (find_all is_panel soup)"
  shows "steps (dfn_view soup) (find_all is_panel soup) soup soup'"
proof -
  from assms(1) obtain dmr roots where d: "dfn_index soup = Inr dmr"
    and p: "process_panels dmr (map (Live 0) (find_all is_panel soup)) [soup] = Inr roots"
    and s: "soup' = hd roots"
    by (auto simp: transform_def split: sum.splits)
  from process_panels_steps[OF assms(2) tracks_initial[OF d] p] s show ?thesis by simp
qed

lemma transform_panels:
  assumes "transform soup = Inr soup'" "pairwise_apart (find_all is_panel soup)"
    "r \<in> set (find_all is_panel soup)"
  obtains x dm out where "subtree r soup = Some x" "older (dfn_view soup) dm"
    "rewrite_panel dm x = Inr out" "subtree r soup' = Some (tree out)"
proof -
  from steps_pointwise[OF transform_steps[OF assms(1,2)] assms(2)] assms(3) that
  show ?thesis by blast
qed

lemma older_export:
  assumes "older v0 v" "export_status (resolve_dfn v sfx) = Inr ex"
  shows "export_status (resolve_dfn v0 sfx) = Inr ex"
proof -
  have e: "is_exported d = is_exported d0" if "head d = head d0" for d d0
  proof -
    from that have "attrs_of d = attrs_of d0" by (cases d; cases d0) auto
    then show ?thesis by (simp add: is_exported_def get_attr_def has_attr_def)
  qed
  note a = assms(1)[unfolded older_def, rule_format, of "dfn_id_of sfx"]
  note b = assms(1)[unfolded older_def, rule_format, of sfx]
  show ?thesis
  proof (cases "v (dfn_id_of sfx)")
    case None
    with a have n0: "v0 (dfn_id_of sfx) = None" by simp
    show ?thesis
    proof (cases "v sfx")
      case None
      with b \<open>v (dfn_id_of sfx) = None\<close> n0 assms(2) show ?thesis
        by (simp add: resolve_dfn_def)
    next
      case (Some dd)
      with b \<open>v (dfn_id_of sfx) = None\<close> n0 assms(2) show ?thesis
        by (cases dd) (auto simp: resolve_dfn_def dest: e)
    qed
  next
    case (Some dd)
    with a assms(2) show ?thesis
      by (cases dd) (auto simp: resolve_dfn_def dest: e)
  qed
qed


lemma is_exported_carries: "is_exported d = carries_export d"
proof -
  have "export_in v = (case v of Some (Toks ts) \<Rightarrow> ''export'' \<in> set ts
       | Some (Str s) \<Rightarrow> contains_str ''export'' s | None \<Rightarrow> False)" for v
    by (cases v rule: export_in.cases) auto
  then show ?thesis by (simp add: is_exported_def carries_export_def has_attr_def)
qed

lemma exported_for_status:
  assumes "export_status (resolve_dfn (dfn_view soup) sfx) = Inr ex"
  shows "ex = exported_for soup sfx"
proof (cases "resolve_dfn (dfn_view soup) sfx")
  case None
  with assms show ?thesis by (simp add: exported_for_def)
next
  case (Some dd)
  with assms show ?thesis by (cases dd) (auto simp: exported_for_def is_exported_carries)
qed

lemma transform_export:
  assumes "older (dfn_view soup) dm" "export_status (resolve_dfn dm sfx) = Inr ex"
  shows "ex = exported_for soup sfx"
  using older_export[OF assms] by (rule exported_for_status)


subsection \<open>The children of a panel\<close>

lemma kids_modify:
  assumes "a \<noteq> []" "subtree a t = Some x" "head_pred q" "q (g x) = q x"
  shows "map q (contents (modify a g t)) = map q (contents t)"
proof -
  from assms(1) obtain i a' where a: "a = i # a'" by (cases a) auto
  with assms(2) obtain nm as cs where t: "t = Tag nm as cs" by (cases t) auto
  with a assms(2) have i: "i < length cs" and s: "subtree a' (cs ! i) = Some x"
    by (auto split: if_splits)
  let ?c = "modify a' g (cs ! i)"
  have "q ?c = q (cs ! i)"
  proof (cases "a' = []")
    case True
    with s assms(4) show ?thesis by simp
  next
    case False
    then have "head ?c = head (cs ! i)" by (rule head_modify)
    with assms(3) show ?thesis by (rule head_predD)
  qed
  then have "(map q cs)[i := q ?c] = map q cs" using i by (simp add: list_update_same_conv)
  then show ?thesis by (simp add: a t map_update)
qed

lemma filter_length_map:
  "map q xs = map q ys \<Longrightarrow> length (filter q xs) = length (filter q ys)"
proof (induction xs arbitrary: ys)
  case Nil
  then show ?case by simp
next
  case (Cons x xs)
  then obtain y ys' where "ys = y # ys'" by (cases ys) auto
  with Cons show ?case by auto
qed

lemma filter_remove_nth:
  "j < length cs \<Longrightarrow>
   length (filter q cs) \<le> Suc (length (filter q (take j cs @ drop (Suc j) cs)))"
proof -
  assume "j < length cs"
  then have "cs = take j cs @ cs ! j # drop (Suc j) cs" by (rule id_take_nth_drop)
  then have "length (filter q cs) = length (filter q (take j cs @ cs ! j # drop (Suc j) cs))"
    by simp
  then show ?thesis by simp
qed







subsection \<open>The command line\<close>

lemma process_files_append:
  "process_files P S L pre w = (w', Finished) \<Longrightarrow>
   process_files P S L (pre @ post) w = process_files P S L post w'"
  by (induction pre arbitrary: w) (auto split: sum.splits)

text \<open>
  Claim C9. Without a file argument the only effect of the program is the event of
  printing the usage line, and it exits with code 2. Otherwise the arguments after the
  program name are processed from left to right: once the files \<open>pre\<close> have been
  processed, an exception in the next file \<open>f\<close> ends the run in the world that
  \<open>pre\<close> left, whatever files \<open>post\<close> follow, and a success hands the world to
  \<open>post\<close>. Processing a file leaves three events after those of the files before
  it: the backup is written, the file is written, and the line naming both is printed.
\<close>

theorem main_usage_and_order:
  "(length argv < 2 \<longrightarrow>
      main P S L argv w
        = (w\<lparr>trace := trace w @ [Printed ''Usage: rewrite_permalinks.py file1.html [file2.html ...]'']\<rparr>,
           SysExit 2))
   \<and> (process_files P S L pre w = (w', Finished) \<longrightarrow> process_file P S L w' (Path f) = Inl e \<longrightarrow>
        main P S L (prog # pre @ f # post) w = (w', Uncaught e))
   \<and> (process_files P S L pre w = (w', Finished) \<longrightarrow> process_file P S L w' (Path f) = Inr w'' \<longrightarrow>
        main P S L (prog # pre @ f # post) w = process_files P S L post w''
        \<and> (\<exists>bak old new.
              with_suffix (Path f) (path_suffix (Path f) @ ''.bak'') = Inr bak
              \<and> trace w'' = trace w'
                  @ [Wrote (path_str bak) old, Wrote (path_str (Path f)) new,
                     Printed (''Processed '' @ path_str (Path f) @ '' -> backup '' @ path_str bak)]))"
proof (intro conjI impI)
  assume "length argv < 2"
  then show "main P S L argv w
        = (w\<lparr>trace := trace w @ [Printed ''Usage: rewrite_permalinks.py file1.html [file2.html ...]'']\<rparr>,
           SysExit 2)"
    by (simp add: main_def print_def)
next
  assume "process_files P S L pre w = (w', Finished)" "process_file P S L w' (Path f) = Inl e"
  then show "main P S L (prog # pre @ f # post) w = (w', Uncaught e)"
    by (simp add: main_def process_files_append)
next
  assume "process_files P S L pre w = (w', Finished)" "process_file P S L w' (Path f) = Inr w''"
  then show "main P S L (prog # pre @ f # post) w = process_files P S L post w''"
    by (simp add: main_def process_files_append)
next
  assume "process_file P S L w' (Path f) = Inr w''"
  then show "\<exists>bak old new.
              with_suffix (Path f) (path_suffix (Path f) @ ''.bak'') = Inr bak
              \<and> trace w'' = trace w'
                  @ [Wrote (path_str bak) old, Wrote (path_str (Path f)) new,
                     Printed (''Processed '' @ path_str (Path f) @ '' -> backup '' @ path_str bak)]"
    by (auto simp: process_file_def write_text_def print_def split: sum.splits)
qed

theorem main_usage_and_order_witness:
  "main (\<lambda>html. empty_doc) (\<lambda>soup. []) [CHR 0x0A] [''rewrite_permalinks.py''] crlf_world
     = (crlf_world\<lparr>trace := [Printed ''Usage: rewrite_permalinks.py file1.html [file2.html ...]'']\<rparr>,
        SysExit 2)
   \<and> main (\<lambda>html. empty_doc) (\<lambda>soup. []) [CHR 0x0A]
        [''rewrite_permalinks.py'', ''missing.html'', ''name.html''] crlf_world
     = (crlf_world, Uncaught FileNotFoundError)
   \<and> snd (main (\<lambda>html. empty_doc) (\<lambda>soup. []) [CHR 0x0A]
        [''rewrite_permalinks.py'', ''./name.html'', ''missing.html''] crlf_world)
     = Uncaught FileNotFoundError
   \<and> trace (fst (main (\<lambda>html. empty_doc) (\<lambda>soup. []) [CHR 0x0A]
        [''rewrite_permalinks.py'', ''./name.html'', ''missing.html''] crlf_world))
     = [Wrote ''name.html.bak'' [CHR ''a'', CHR 0x0A, CHR ''b''], Wrote ''name.html'' [],
        Printed ''Processed name.html -> backup name.html.bak'']"
proof -
  let ?P = "\<lambda>html::string. empty_doc" and ?S = "\<lambda>soup::node. []::string"
  let ?w = "print ''Processed name.html -> backup name.html.bak''
          (write_text [CHR 0x0A] ''name.html'' []
            (write_text [CHR 0x0A] ''name.html.bak'' [CHR ''a'', CHR 0x0A, CHR ''b''] crlf_world))"
  have a: "length [''rewrite_permalinks.py''] < 2" by simp
  have b: "process_files ?P ?S [CHR 0x0A] [] crlf_world = (crlf_world, Finished)" by simp
  have c: "process_file ?P ?S [CHR 0x0A] crlf_world (Path ''missing.html'') = Inl FileNotFoundError"
    by (simp add: model_defs file_defs crlf_world_def empty_doc_def Let_def)
  have d: "process_file ?P ?S [CHR 0x0A] crlf_world (Path ''./name.html'') = Inr ?w"
    by (simp add: model_defs file_defs crlf_world_def empty_doc_def Let_def)
  have e: "process_file ?P ?S [CHR 0x0A] ?w (Path ''missing.html'') = Inl FileNotFoundError"
    by (simp add: model_defs file_defs crlf_world_def empty_doc_def Let_def)
  have f: "trace ?w = [Wrote ''name.html.bak'' [CHR ''a'', CHR 0x0A, CHR ''b''], Wrote ''name.html'' [],
        Printed ''Processed name.html -> backup name.html.bak'']"
    by (simp add: file_defs crlf_world_def)
  from main_usage_and_order [where argv = "[''rewrite_permalinks.py'']" and P = ?P
      and S = ?S and L = "[CHR 0x0A]" and w = crlf_world and pre = "[]"
      and w' = crlf_world and f = "''missing.html''" and e = FileNotFoundError
      and post = "[''name.html'']" and prog = "''rewrite_permalinks.py''"] a b c
  have 1: "main ?P ?S [CHR 0x0A] [''rewrite_permalinks.py''] crlf_world
     = (crlf_world\<lparr>trace := [Printed ''Usage: rewrite_permalinks.py file1.html [file2.html ...]'']\<rparr>,
        SysExit 2)"
    and 2: "main ?P ?S [CHR 0x0A] [''rewrite_permalinks.py'', ''missing.html'', ''name.html''] crlf_world
     = (crlf_world, Uncaught FileNotFoundError)"
    by (simp_all add: crlf_world_def)
  from main_usage_and_order [where argv = "[]" and P = ?P
      and S = ?S and L = "[CHR 0x0A]" and w = crlf_world and pre = "[]"
      and w' = crlf_world and f = "''./name.html''" and w'' = ?w
      and post = "[''missing.html'']" and prog = "''rewrite_permalinks.py''"] b d e
  have 3: "main ?P ?S [CHR 0x0A] [''rewrite_permalinks.py'', ''./name.html'', ''missing.html''] crlf_world
     = (?w, Uncaught FileNotFoundError)"
    by simp
  from 1 2 3 f show ?thesis by (simp only: fst_conv snd_conv simp_thms)
qed


subsection \<open>The backup\<close>

text \<open>
  Claim C5, evaluated at a file with a carriage return. The claim says that the backup
  \<^verbatim>\<open>name.html.bak\<close> holds the bytes of the original. For the four bytes
  \<open>a \r \n b\<close>, whatever the parser and the serializer do, a run that returns has
  written the three bytes \<open>a \n b\<close> as the backup, and a run that raises has written
  no backup at all: the text was read with universal newlines and is written back as read.
\<close>

theorem backup_loses_carriage_return:
  "(case process_file parse serialize [CHR 0x0A] crlf_world (Path ''name.html'') of
      Inl e \<Rightarrow> True
    | Inr w \<Rightarrow> files w ''name.html.bak'' = Some [CHR ''a'', CHR 0x0A, CHR ''b''])
   \<and> files crlf_world ''name.html'' = Some [CHR ''a'', CHR 0x0D, CHR 0x0A, CHR ''b'']
   \<and> process_file (\<lambda>html. empty_doc) serialize [CHR 0x0A] crlf_world (Path ''name.html'')
       = Inr (print ''Processed name.html -> backup name.html.bak''
               (write_text [CHR 0x0A] ''name.html'' (serialize empty_doc)
                 (write_text [CHR 0x0A] ''name.html.bak'' [CHR ''a'', CHR 0x0A, CHR ''b'']
                    crlf_world)))"
  by (simp add: model_defs file_defs crlf_world_def empty_doc_def split: sum.splits)

subsection \<open>Panels without an inner container\<close>

text \<open>
  Claim C7, evaluated at a parseable document whose only element is a matched panel with
  no children. The claim says that processing completes and that the rewriter's own
  per-panel logic raises nothing. The panel has no permalink anchor, so line 54 calls
  \<^verbatim>\<open>panel.div.insert\<close>, and \<^verbatim>\<open>panel.div\<close> is \<open>None\<close>: the transform raises
  \<open>AttributeError\<close>, and so does \<^verbatim>\<open>process_file\<close> on a file that parses to this
  document, before any file is written.
\<close>

theorem panel_without_div_raises:
  "transform bare_panel = Inl AttributeError
   \<and> process_file (\<lambda>html. bare_panel) serialize linesep
        \<lparr>files = [''x.html'' \<mapsto> []], trace = []\<rparr> (Path ''x.html'') = Inl AttributeError"
  by (simp add: bare_panel_def model_defs process_file_def read_text_def Path_def Let_def)

subsection \<open>Panels in the transformed document\<close>

lemma set_permalink_attrs:
  assumes "is_self_link x"
  shows "get_attr ''href'' (set_permalink i x) = Some (Str (''#'' @ i))"
    and "get_attr ''aria-label'' (set_permalink i x)
           = Some (Str (''Permalink for definition: '' @ i @ ''. Activate to close this dialog.''))"
    and "contents (set_permalink i x) = [NavStr PlainText ''Permalink'']"
  using assms by (cases x; auto simp: get_attr_def map_of_set_item dest: is_self_link_tag)+

lemma dfn_id_prefixed: "starts_with ''dfn-'' (dfn_id_of sfx)"
  by (simp add: dfn_id_of_def starts_with_def)

lemma eval_two_markers: "transform two_markers = Inr one_marker"
  by code_simp

lemma eval_two_anchors:
  "transform two_anchors
     = Inr (doc [dfn_plain, panel_for [Tag ''div'' [] [permalink_anchor, old_anchor]]])"
  by code_simp

lemma eval_nested:
  "transform nested = Inr (doc [widget [panel_for [Tag ''div'' [] [permalink_anchor]]]])"
  by code_simp

lemma eval_nested_matched:
  "transform nested_matched = Inr (doc [panel_x [panel_for [permalink_anchor, Tag ''div'' [] []]]])"
  by code_simp

lemma eval_nested_exported:
  "transform nested_exported
     = Inr (doc [dfn_x_exported, panel_x [panel_for [permalink_anchor, Tag ''div'' [] []]]])"
  by code_simp

lemma eval_marker_with_anchor:
  "transform marker_with_anchor = Inr (doc [dfn_plain, panel_for [Tag ''div'' [] []]])"
  by code_simp


text \<open>
  Claim C2, amended. In a document in which no panel lies inside another panel, take a
  panel whose identifier matches and that holds at most one exported marker when the
  document is loaded. When the transform returns, the panel, found at the same place,
  holds exactly one exported marker below it if the definition resolved in the loaded
  document carries the class token \<open>export\<close> or the attribute \<open>data-export\<close>, and
  none otherwise (also when no definition was resolved).
\<close>

theorem marker_matches_export:
  assumes "transform soup = Inr soup'" and "pairwise_apart (find_all is_panel soup)"
    and "r \<in> set (find_all is_panel soup)" and "subtree r soup = Some panel"
    and "panel_suffix panel = Inr (Some sfx)"
    and "length (find_all is_marker panel) \<le> 1"
  shows "\<exists>panel'. subtree r soup' = Some panel'
           \<and> length (find_all is_marker panel') = (if exported_for soup sfx then 1 else 0)"
proof -
  from transform_panels[OF assms(1,2,3)] assms(4) obtain dm out where
    o: "older (dfn_view soup) dm" "rewrite_panel dm panel = Inr out"
      "subtree r soup' = Some (tree out)"
    by (metis option.inject)
  from rewrite_panel_matched[OF o(2) assms(5)] obtain ex where
    ex: "export_status (resolve_dfn dm sfx) = Inr ex" by metis
  from markers_after[OF o(2) assms(5,6) ex] transform_export[OF o(1) ex] o(3) show ?thesis
    by simp
qed

theorem marker_matches_export_witness:
  "(\<exists>soup' panel'. transform scenario1 = Inr soup' \<and> subtree [1] soup' = Some panel'
       \<and> length (find_all is_marker panel') = 1)
   \<and> (\<exists>soup' panel'. transform scenario2 = Inr soup' \<and> subtree [1] soup' = Some panel'
       \<and> length (find_all is_marker panel') = 0)
   \<and> (\<exists>soup' panel'. transform scenario_data = Inr soup' \<and> subtree [1] soup' = Some panel'
       \<and> length (find_all is_marker panel') = 1)
   \<and> get_attr ''class'' dfn_data_export = None"
proof -
  have a: "\<exists>soup'. transform scenario1 = Inr soup'" "\<exists>soup'. transform scenario2 = Inr soup'"
    "\<exists>soup'. transform scenario_data = Inr soup'"
    by (simp_all add: example_defs model_defs Let_def)
  have b: "pairwise_apart (find_all is_panel scenario1)" "[1] \<in> set (find_all is_panel scenario1)"
    "subtree [1] scenario1 = Some (panel_for [Tag ''div'' [] []])"
    "panel_suffix (panel_for [Tag ''div'' [] []]) = Inr (Some ''claims'')"
    "length (find_all is_marker (panel_for [Tag ''div'' [] []])) \<le> 1"
    "exported_for scenario1 ''claims''"
    by code_simp+
  have c: "pairwise_apart (find_all is_panel scenario2)" "[1] \<in> set (find_all is_panel scenario2)"
    "subtree [1] scenario2 = Some (panel_for [Tag ''div'' [] [old_anchor, stale_marker]])"
    "panel_suffix (panel_for [Tag ''div'' [] [old_anchor, stale_marker]]) = Inr (Some ''claims'')"
    "length (find_all is_marker (panel_for [Tag ''div'' [] [old_anchor, stale_marker]])) \<le> 1"
    "\<not> exported_for scenario2 ''claims''"
    by code_simp+
  have d: "pairwise_apart (find_all is_panel scenario_data)"
    "[1] \<in> set (find_all is_panel scenario_data)"
    "subtree [1] scenario_data = Some (panel_for [Tag ''div'' [] []])"
    "exported_for scenario_data ''claims''"
    "get_attr ''class'' dfn_data_export = None"
    by code_simp+
  from a obtain s1 s2 s3 where t: "transform scenario1 = Inr s1" "transform scenario2 = Inr s2"
    "transform scenario_data = Inr s3"
    by blast
  from marker_matches_export[OF t(1) b(1,2,3,4,5)] marker_matches_export[OF t(2) c(1,2,3,4,5)]
    marker_matches_export[OF t(3) d(1,2,3) b(4,5)]
    b(6) c(6) d(4,5) t
  show ?thesis by auto
qed

theorem marker_two_stale_counterexample:
  "\<not> (\<forall>soup soup' r panel sfx.
        transform soup = Inr soup' \<longrightarrow> pairwise_apart (find_all is_panel soup) \<longrightarrow>
        r \<in> set (find_all is_panel soup) \<longrightarrow>
        subtree r soup = Some panel \<longrightarrow> panel_suffix panel = Inr (Some sfx) \<longrightarrow>
        (\<exists>panel'. subtree r soup' = Some panel'
           \<and> length (find_all is_marker panel') = (if exported_for soup sfx then 1 else 0)))
   \<and> \<not> (\<forall>soup soup' r panel sfx.
        transform soup = Inr soup' \<longrightarrow> r \<in> set (find_all is_panel soup) \<longrightarrow>
        subtree r soup = Some panel \<longrightarrow> panel_suffix panel = Inr (Some sfx) \<longrightarrow>
        length (find_all is_marker panel) \<le> 1 \<longrightarrow>
        (\<exists>panel'. subtree r soup' = Some panel'
           \<and> length (find_all is_marker panel') = (if exported_for soup sfx then 1 else 0)))"
proof (intro conjI notI)
  assume h: "\<forall>soup soup' r panel sfx.
        transform soup = Inr soup' \<longrightarrow> pairwise_apart (find_all is_panel soup) \<longrightarrow>
        r \<in> set (find_all is_panel soup) \<longrightarrow>
        subtree r soup = Some panel \<longrightarrow> panel_suffix panel = Inr (Some sfx) \<longrightarrow>
        (\<exists>panel'. subtree r soup' = Some panel'
           \<and> length (find_all is_marker panel') = (if exported_for soup sfx then 1 else 0))"
  have a: "pairwise_apart (find_all is_panel two_markers)"
    "[1] \<in> set (find_all is_panel two_markers)"
    "subtree [1] two_markers = Some (panel_for [Tag ''div'' [] [], stale_marker, stale_marker])"
    "panel_suffix (panel_for [Tag ''div'' [] [], stale_marker, stale_marker]) = Inr (Some ''claims'')"
    "\<not> exported_for two_markers ''claims''"
    by code_simp+
  have b: "subtree [1] one_marker
      = Some (panel_for [Tag ''div'' [] [permalink_anchor], stale_marker])"
    "length (find_all is_marker (panel_for [Tag ''div'' [] [permalink_anchor], stale_marker])) = 1"
    by code_simp+
  from h[rule_format, OF eval_two_markers a(1,2,3,4)] a(5) b show False by simp
next
  assume h: "\<forall>soup soup' r panel sfx.
        transform soup = Inr soup' \<longrightarrow> r \<in> set (find_all is_panel soup) \<longrightarrow>
        subtree r soup = Some panel \<longrightarrow> panel_suffix panel = Inr (Some sfx) \<longrightarrow>
        length (find_all is_marker panel) \<le> 1 \<longrightarrow>
        (\<exists>panel'. subtree r soup' = Some panel'
           \<and> length (find_all is_marker panel') = (if exported_for soup sfx then 1 else 0))"
  have a: "[1] \<in> set (find_all is_panel nested_exported)"
    "subtree [1] nested_exported = Some (panel_x [panel_for [Tag ''div'' [] []]])"
    "panel_suffix (panel_x [panel_for [Tag ''div'' [] []]]) = Inr (Some ''x'')"
    "length (find_all is_marker (panel_x [panel_for [Tag ''div'' [] []]])) \<le> 1"
    "exported_for nested_exported ''x''"
    by code_simp+
  have b: "subtree [1] (doc [dfn_x_exported, panel_x [panel_for [permalink_anchor, Tag ''div'' [] []]]])
      = Some (panel_x [panel_for [permalink_anchor, Tag ''div'' [] []]])"
    "length (find_all is_marker (panel_x [panel_for [permalink_anchor, Tag ''div'' [] []]])) = 0"
    by code_simp+
  from h[rule_format, OF eval_nested_exported a(1,2,3,4)] a(5) b show False by simp
qed

text \<open>
  Claim C3, amended. In a document in which no panel lies inside another panel, take a
  panel whose identifier matches, that holds at most one permalink anchor when the
  document is loaded and whose exported markers, if any, hold text only.
  When the transform returns, the panel holds exactly one permalink anchor; its
  \<open>href\<close> is \<open>#\<close> followed by the computed definition identifier, which begins with
  \<open>dfn-\<close>; its only child is the text \<open>Permalink\<close>; and its \<open>aria-label\<close> is the
  fixed sentence around the identifier. No definition needs to back the identifier.
\<close>

theorem permalink_after_transform:
  assumes "transform soup = Inr soup'" and "pairwise_apart (find_all is_panel soup)"
    and "r \<in> set (find_all is_panel soup)" and "subtree r soup = Some panel"
    and "panel_suffix panel = Inr (Some sfx)"
    and "length (find_all is_self_link panel) \<le> 1" and "plain_markers panel"
  shows "\<exists>panel' a x. subtree r soup' = Some panel' \<and> find_all is_self_link panel' = [a]
           \<and> subtree a panel' = Some x
           \<and> get_attr ''href'' x = Some (Str (''#'' @ dfn_id_of sfx))
           \<and> starts_with ''dfn-'' (dfn_id_of sfx)
           \<and> contents x = [NavStr PlainText ''Permalink'']
           \<and> get_attr ''aria-label'' x
               = Some (Str (''Permalink for definition: '' @ dfn_id_of sfx
                            @ ''. Activate to close this dialog.''))"
proof -
  from transform_panels[OF assms(1,2,3)] assms(4) obtain dm out where
    o: "rewrite_panel dm panel = Inr out" "subtree r soup' = Some (tree out)"
    by (metis option.inject)
  from anchor_after[OF o(1) assms(5,6,7)] obtain a x where
    a: "find_all is_self_link (tree out) = [a]" "is_self_link x"
    "subtree a (tree out) = Some (set_permalink (dfn_id_of sfx) x)" by blast
  from o(2) a(1,3) set_permalink_attrs[OF a(2), of "dfn_id_of sfx"] dfn_id_prefixed[of sfx]
  show ?thesis by blast
qed

theorem permalink_after_transform_witness:
  "\<exists>soup' panel' a x. transform (doc [panel_for [Tag ''div'' [] []]]) = Inr soup'
      \<and> subtree [0] soup' = Some panel' \<and> find_all is_self_link panel' = [a]
      \<and> subtree a panel' = Some x \<and> get_attr ''href'' x = Some (Str ''#dfn-claims'')
      \<and> contents x = [NavStr PlainText ''Permalink'']"
proof -
  let ?d = "doc [panel_for [Tag ''div'' [] []]]"
  have "\<exists>soup'. transform ?d = Inr soup'"
    by (simp add: example_defs model_defs Let_def)
  then obtain s1 where t: "transform ?d = Inr s1" by blast
  have b: "pairwise_apart (find_all is_panel ?d)" "[0] \<in> set (find_all is_panel ?d)"
    "subtree [0] ?d = Some (panel_for [Tag ''div'' [] []])"
    "panel_suffix (panel_for [Tag ''div'' [] []]) = Inr (Some ''claims'')"
    "length (find_all is_self_link (panel_for [Tag ''div'' [] []])) \<le> 1"
    "plain_markers (panel_for [Tag ''div'' [] []])"
    "dfn_id_of ''claims'' = ''dfn-claims''"
    by code_simp+
  from permalink_after_transform[OF t b(1,2,3,4,5,6)] t b(7) show ?thesis by auto
qed

theorem permalink_two_anchors_counterexample:
  "\<not> (\<forall>soup soup' r panel sfx.
        transform soup = Inr soup' \<longrightarrow> pairwise_apart (find_all is_panel soup) \<longrightarrow>
        r \<in> set (find_all is_panel soup) \<longrightarrow>
        subtree r soup = Some panel \<longrightarrow> panel_suffix panel = Inr (Some sfx) \<longrightarrow>
        plain_markers panel \<longrightarrow>
        (\<exists>panel' a. subtree r soup' = Some panel' \<and> find_all is_self_link panel' = [a]))
   \<and> \<not> (\<forall>soup soup' r panel sfx.
        transform soup = Inr soup' \<longrightarrow> r \<in> set (find_all is_panel soup) \<longrightarrow>
        subtree r soup = Some panel \<longrightarrow> panel_suffix panel = Inr (Some sfx) \<longrightarrow>
        length (find_all is_self_link panel) \<le> 1 \<longrightarrow> plain_markers panel \<longrightarrow>
        (\<exists>panel' a x. subtree r soup' = Some panel' \<and> find_all is_self_link panel' = [a]
           \<and> subtree a panel' = Some x
           \<and> get_attr ''href'' x = Some (Str (''#'' @ dfn_id_of sfx))))
   \<and> \<not> (\<forall>soup soup' r panel sfx.
        transform soup = Inr soup' \<longrightarrow> pairwise_apart (find_all is_panel soup) \<longrightarrow>
        r \<in> set (find_all is_panel soup) \<longrightarrow>
        subtree r soup = Some panel \<longrightarrow> panel_suffix panel = Inr (Some sfx) \<longrightarrow>
        length (find_all is_self_link panel) \<le> 1 \<longrightarrow>
        (\<exists>panel' a. subtree r soup' = Some panel' \<and> find_all is_self_link panel' = [a]))"
proof (intro conjI notI)
  assume h: "\<forall>soup soup' r panel sfx.
        transform soup = Inr soup' \<longrightarrow> pairwise_apart (find_all is_panel soup) \<longrightarrow>
        r \<in> set (find_all is_panel soup) \<longrightarrow>
        subtree r soup = Some panel \<longrightarrow> panel_suffix panel = Inr (Some sfx) \<longrightarrow>
        plain_markers panel \<longrightarrow>
        (\<exists>panel' a. subtree r soup' = Some panel' \<and> find_all is_self_link panel' = [a])"
  have a: "pairwise_apart (find_all is_panel two_anchors)"
    "[1] \<in> set (find_all is_panel two_anchors)"
    "subtree [1] two_anchors = Some (panel_for [Tag ''div'' [] [old_anchor, old_anchor]])"
    "panel_suffix (panel_for [Tag ''div'' [] [old_anchor, old_anchor]]) = Inr (Some ''claims'')"
    "plain_markers (panel_for [Tag ''div'' [] [old_anchor, old_anchor]])"
    by code_simp+
  have b: "subtree [1] (doc [dfn_plain, panel_for [Tag ''div'' [] [permalink_anchor, old_anchor]]])
      = Some (panel_for [Tag ''div'' [] [permalink_anchor, old_anchor]])"
    "find_all is_self_link (panel_for [Tag ''div'' [] [permalink_anchor, old_anchor]])
      = [[0, 0], [0, 1]]"
    by code_simp+
  from h[rule_format, OF eval_two_anchors a] b show False by simp
next
  assume h: "\<forall>soup soup' r panel sfx.
        transform soup = Inr soup' \<longrightarrow> r \<in> set (find_all is_panel soup) \<longrightarrow>
        subtree r soup = Some panel \<longrightarrow> panel_suffix panel = Inr (Some sfx) \<longrightarrow>
        length (find_all is_self_link panel) \<le> 1 \<longrightarrow> plain_markers panel \<longrightarrow>
        (\<exists>panel' a x. subtree r soup' = Some panel' \<and> find_all is_self_link panel' = [a]
           \<and> subtree a panel' = Some x
           \<and> get_attr ''href'' x = Some (Str (''#'' @ dfn_id_of sfx)))"
  have a: "[0] \<in> set (find_all is_panel nested_matched)"
    "subtree [0] nested_matched = Some (panel_x [panel_for [Tag ''div'' [] []]])"
    "panel_suffix (panel_x [panel_for [Tag ''div'' [] []]]) = Inr (Some ''x'')"
    "length (find_all is_self_link (panel_x [panel_for [Tag ''div'' [] []]])) \<le> 1"
    "plain_markers (panel_x [panel_for [Tag ''div'' [] []]])"
    by code_simp+
  have b: "subtree [0] (doc [panel_x [panel_for [permalink_anchor, Tag ''div'' [] []]]])
      = Some (panel_x [panel_for [permalink_anchor, Tag ''div'' [] []]])"
    "find_all is_self_link (panel_x [panel_for [permalink_anchor, Tag ''div'' [] []]]) = [[0, 0]]"
    "subtree [0, 0] (panel_x [panel_for [permalink_anchor, Tag ''div'' [] []]]) = Some permalink_anchor"
    "get_attr ''href'' permalink_anchor = Some (Str ''#dfn-claims'')"
    "dfn_id_of ''x'' = ''dfn-x''"
    by code_simp+
  from h[rule_format, OF eval_nested_matched a] b show False by auto
next
  assume h: "\<forall>soup soup' r panel sfx.
        transform soup = Inr soup' \<longrightarrow> pairwise_apart (find_all is_panel soup) \<longrightarrow>
        r \<in> set (find_all is_panel soup) \<longrightarrow>
        subtree r soup = Some panel \<longrightarrow> panel_suffix panel = Inr (Some sfx) \<longrightarrow>
        length (find_all is_self_link panel) \<le> 1 \<longrightarrow>
        (\<exists>panel' a. subtree r soup' = Some panel' \<and> find_all is_self_link panel' = [a])"
  let ?p = "panel_for [Tag ''div'' [] [],
                     Tag ''span'' [(''class'', Toks [''marker'', ''dfn-exported''])] [old_anchor]]"
  have a: "pairwise_apart (find_all is_panel marker_with_anchor)"
    "[1] \<in> set (find_all is_panel marker_with_anchor)"
    "subtree [1] marker_with_anchor = Some ?p"
    "panel_suffix ?p = Inr (Some ''claims'')"
    "length (find_all is_self_link ?p) \<le> 1"
    by code_simp+
  have b: "subtree [1] (doc [dfn_plain, panel_for [Tag ''div'' [] []]])
      = Some (panel_for [Tag ''div'' [] []])"
    "find_all is_self_link (panel_for [Tag ''div'' [] []]) = []"
    by code_simp+
  from h[rule_format, OF eval_marker_with_anchor a] b show False by simp
qed

text \<open>
  Claim C4, amended. In a document in which no panel lies inside another panel, a panel
  whose identifier does not match is found unchanged, with its whole subtree, when the
  transform returns.
\<close>

theorem unmatched_panel_unchanged:
  assumes "transform soup = Inr soup'" and "pairwise_apart (find_all is_panel soup)"
    and "r \<in> set (find_all is_panel soup)" and "subtree r soup = Some panel"
    and "panel_suffix panel = Inr None"
  shows "subtree r soup' = Some panel"
proof -
  from transform_panels[OF assms(1,2,3)] assms(4) obtain dm out where
    o: "rewrite_panel dm panel = Inr out" "subtree r soup' = Some (tree out)"
    by (metis option.inject)
  from o(1) assms(5) have "tree out = panel" by (auto simp: rewrite_panel_def)
  with o(2) show ?thesis by simp
qed

theorem unmatched_panel_unchanged_witness:
  "\<exists>soup'. transform mixed = Inr soup'
      \<and> subtree [0] soup' = Some (widget [stale_marker, old_anchor])
      \<and> subtree [1] soup' = Some (panel_for [Tag ''div'' [] [permalink_anchor]])"
proof -
  have t: "transform mixed
      = Inr (doc [widget [stale_marker, old_anchor], panel_for [Tag ''div'' [] [permalink_anchor]]])"
    by code_simp
  have b: "pairwise_apart (find_all is_panel mixed)" "[0] \<in> set (find_all is_panel mixed)"
    "subtree [0] mixed = Some (widget [stale_marker, old_anchor])"
    "panel_suffix (widget [stale_marker, old_anchor]) = Inr None"
    "subtree [1] (doc [widget [stale_marker, old_anchor], panel_for [Tag ''div'' [] [permalink_anchor]]])
       = Some (panel_for [Tag ''div'' [] [permalink_anchor]])"
    by code_simp+
  from unmatched_panel_unchanged[OF t b(1,2,3,4)] t b(5) show ?thesis by simp
qed

theorem unmatched_panel_nested_counterexample:
  "\<not> (\<forall>soup soup' r panel.
        transform soup = Inr soup' \<longrightarrow> r \<in> set (find_all is_panel soup) \<longrightarrow>
        subtree r soup = Some panel \<longrightarrow> panel_suffix panel = Inr None \<longrightarrow>
        subtree r soup' = Some panel)"
proof
  assume h: "\<forall>soup soup' r panel.
        transform soup = Inr soup' \<longrightarrow> r \<in> set (find_all is_panel soup) \<longrightarrow>
        subtree r soup = Some panel \<longrightarrow> panel_suffix panel = Inr None \<longrightarrow>
        subtree r soup' = Some panel"
  have a: "[0] \<in> set (find_all is_panel nested)"
    "subtree [0] nested = Some (widget [panel_for [Tag ''div'' [] []]])"
    "panel_suffix (widget [panel_for [Tag ''div'' [] []]]) = Inr None"
    by code_simp+
  have b: "subtree [0] (doc [widget [panel_for [Tag ''div'' [] [permalink_anchor]]]])
      \<noteq> Some (widget [panel_for [Tag ''div'' [] []]])"
    by code_simp
  from h[rule_format, OF eval_nested a] b show False by simp
qed

subsection \<open>Markers and the index\<close>






text \<open>
  Claim C8, amended. When the index is built (no definition element has a list as id),
  its keys are exactly the identifier values of the definition elements of the document
  that are not the empty string; each key is mapped to the last definition element, in
  document order, that carries it, and that element is in the document.
\<close>

theorem dfn_index_keys:
  assumes "dfn_index soup = Inr m"
  shows "dom m = {s. s \<noteq> [] \<and> (\<exists>r \<in> set (find_all is_dfn soup). id_at soup r = Some (Str s))}
       \<and> (\<forall>s \<in> dom m.
            m s = Some (Live 0 (last (filter (\<lambda>r. id_at soup r = Some (Str s)) (find_all is_dfn soup))))
            \<and> (\<exists>t. deref [soup] (the (m s)) = Some t \<and> is_dfn t \<and> get_attr ''id'' t = Some (Str s)))"
proof -
  let ?rs = "find_all is_dfn soup"
  let ?f = "\<lambda>s. filter (\<lambda>r. id_at soup r = Some (Str s)) ?rs"
  note sp = index_dfns_spec[OF assms[unfolded dfn_index_def]]
  have d: "dom m = {s. s \<noteq> [] \<and> (\<exists>r \<in> set ?rs. id_at soup r = Some (Str s))}"
  proof (rule set_eqI)
    fix s
    show "s \<in> dom m \<longleftrightarrow> s \<in> {s. s \<noteq> [] \<and> (\<exists>r \<in> set ?rs. id_at soup r = Some (Str s))}"
      using sp[of s] by (auto split: if_splits)
  qed
  have "m s = Some (Live 0 (last (?f s)))
      \<and> (\<exists>t. deref [soup] (the (m s)) = Some t \<and> is_dfn t \<and> get_attr ''id'' t = Some (Str s))"
    if "s \<in> dom m" for s
  proof -
    from that d have ne: "s \<noteq> []" "\<exists>r \<in> set ?rs. id_at soup r = Some (Str s)" by auto
    with sp[of s] have ms: "m s = Some (Live 0 (last (?f s)))" by simp
    from ne(2) have "?f s \<noteq> []" by (auto simp: filter_empty_conv)
    then have "last (?f s) \<in> set (?f s)" by (rule last_in_set)
    then have l: "last (?f s) \<in> set ?rs" "id_at soup (last (?f s)) = Some (Str s)" by simp_all
    from l(1) obtain t where t: "subtree (last (?f s)) soup = Some t" "is_dfn t"
      by (auto simp: find_all_iff)
    with l(2) have "get_attr ''id'' t = Some (Str s)" by (simp add: id_at_def)
    with ms t show ?thesis by simp
  qed
  with d show ?thesis by blast
qed

lemma eval_twins: "dfn_index twins = Inr [''x'' \<mapsto> Live 0 [1]]"
  by (simp add: example_defs model_defs)

theorem dfn_index_keys_witness:
  "dom [''x'' \<mapsto> Live 0 [1::nat]]
     = {s. s \<noteq> [] \<and> (\<exists>r \<in> set (find_all is_dfn twins). id_at twins r = Some (Str s))}
   \<and> last (filter (\<lambda>r. id_at twins r = Some (Str ''x'')) (find_all is_dfn twins)) = [1]"
proof -
  have "[''x'' \<mapsto> Live 0 [1::nat]] ''x'' = Some (Live 0 [1])" by simp
  with dfn_index_keys[OF eval_twins] show ?thesis by auto
qed

theorem dfn_index_empty_id_counterexample:
  "\<not> (\<forall>soup m. dfn_index soup = Inr m \<longrightarrow>
        dom m = {s. \<exists>r \<in> set (find_all is_dfn soup). id_at soup r = Some (Str s)})"
proof
  assume h: "\<forall>soup m. dfn_index soup = Inr m \<longrightarrow>
        dom m = {s. \<exists>r \<in> set (find_all is_dfn soup). id_at soup r = Some (Str s)}"
  have a: "dfn_index empty_id = Inr Map.empty"
    by (simp add: example_defs model_defs)
  have b: "[0] \<in> set (find_all is_dfn empty_id)" "id_at empty_id [0] = Some (Str [])"
    by code_simp+
  from h[rule_format, OF a] have "dom (Map.empty :: string \<rightharpoonup> ref)
      = {s. \<exists>r \<in> set (find_all is_dfn empty_id). id_at empty_id r = Some (Str s)}" .
  with b show False by auto
qed

end
